theory Spec2Isabelle
  imports Main "HOL-Library.Word"
begin

section \<open>Data model (types.go)\<close>

text \<open>
  A value of Go type \<open>*Key[V]\<close> is a pointer.  The maps of the program are keyed by
  the pointer, not by the string it carries, so a key of the model is the address
  \<open>ref\<close> together with the two fields of the struct it points to.  Keys are never
  nil and are not mutated while a call runs.
\<close>

record 'v Key =
  ref :: nat
  Key :: string
  OriginalValue :: 'v

text \<open>\<open>time.Duration\<close> is an int64 count of nanoseconds; the model version a uint16.\<close>

type_synonym Duration = "64 word"

definition Minute :: Duration where
  "Minute = 60000000000"

text \<open>\<open>context.Context\<close>: the values the program tells apart.\<close>

datatype Context = Background | TODO | WithCancel nat

text \<open>
  Go \<open>error\<close> values: \<open>errors.New\<close>, \<open>errors.Wrap\<close>, \<open>errors.WithStack\<close>
  (github.com/pkg/errors) and \<open>*multierror.Error\<close> (hashicorp/go-multierror).
  A nil error is \<open>None\<close> of \<open>error option\<close>.
\<close>

datatype error =
    New string
  | Wrap error string
  | WithStack error
  | MultiError "error list"



text \<open>
  The \<open>Provider\<close> interface.  A tier is any implementation, with state of its own:
  every method takes the state of the world and returns the new one.  A pointer
  \<open>*T\<close> is \<open>'t option\<close> (nil is \<open>None\<close>); a Go map is a partial function, a nil
  map reads as the empty one.
\<close>

record ('s, 't, 'v) Provider =
  Provider_Get :: "Context \<Rightarrow> 'v Key \<Rightarrow> 16 word \<Rightarrow> 's \<Rightarrow> ('t option \<times> error option) \<times> 's"
  Provider_MGet :: "Context \<Rightarrow> 'v Key list \<Rightarrow> 16 word \<Rightarrow> 's
     \<Rightarrow> (('v Key \<rightharpoonup> 't option) \<times> 'v Key list \<times> error option) \<times> 's"
  Provider_MSet :: "Context \<Rightarrow> (string \<rightharpoonup> 't option) \<Rightarrow> Duration \<Rightarrow> 's \<Rightarrow> error option \<times> 's"

record ('s, 't, 'v) Builder =
  providers :: "('s, 't, 'v) Provider list"
  ttl :: Duration
  modelVersion :: "16 word"

record ('s, 't, 'v) Cache =
  builder :: "('s, 't, 'v) Builder"

text \<open>
  What the orchestrator does to its collaborators: a call of a tier's method or of
  the origin function, with the arguments and what came back, or a logged error.
\<close>

datatype ('t, 'v) event =
    CallGet nat Context "'v Key" "16 word" "'t option" "error option"
  | CallMGet nat Context "'v Key list" "16 word" "'v Key \<rightharpoonup> 't option" "'v Key list" "error option"
  | CallMSet nat Context "string \<rightharpoonup> 't option" Duration "error option"
  | CallSingleFn Context "'v Key" "'t option" "error option"
  | CallFn Context "'v Key list" "'v Key \<rightharpoonup> 't option" "error option"
  | Log error

section \<open>Configuration (builder.go)\<close>

definition NewCacheBuilder :: "16 word \<Rightarrow> ('s, 't, 'v) Provider list \<Rightarrow> ('s, 't, 'v) Builder" where
  "NewCacheBuilder mv ps = \<lparr>providers = ps, ttl = 5 * Minute, modelVersion = mv\<rparr>"

definition Build :: "('s, 't, 'v) Builder \<Rightarrow> ('s, 't, 'v) Cache" where
  "Build b = \<lparr>builder = b\<rparr>"

definition WithTtl :: "('s, 't, 'v) Builder \<Rightarrow> Duration \<Rightarrow> ('s, 't, 'v) Builder" where
  "WithTtl b t = b\<lparr>ttl := t\<rparr>"

section \<open>Writing to every tier (cache.go, MSet)\<close>




section \<open>Single-key lookup (cache.go, Get)\<close>

text \<open>
  The loop over the tiers (lines 14 to 28): a tier's error is logged and the tier
  skipped, the first non-nil value ends the loop, and a tier that returned nil is
  kept in \<open>missingIn\<close>.
\<close>

fun Get_tiers :: "Context \<Rightarrow> 'v Key \<Rightarrow> 16 word \<Rightarrow> (nat \<times> ('s, 't, 'v) Provider) list
    \<Rightarrow> (nat \<times> ('s, 't, 'v) Provider) list \<Rightarrow> 's \<Rightarrow> ('t, 'v) event list
    \<Rightarrow> 't option \<times> (nat \<times> ('s, 't, 'v) Provider) list \<times> 's \<times> ('t, 'v) event list" where
  "Get_tiers ctx key mv [] missingIn s tr = (None, missingIn, s, tr)"
| "Get_tiers ctx key mv ((i, provider) # ps) missingIn s tr =
     (case Provider_Get provider ctx key mv s of
        ((v, err), s1) \<Rightarrow>
          (case err of
             Some e \<Rightarrow> Get_tiers ctx key mv ps missingIn s1 (tr @ [CallGet i ctx key mv v err, Log e])
           | None \<Rightarrow>
               (case v of
                  Some x \<Rightarrow> (Some x, missingIn, s1, tr @ [CallGet i ctx key mv v err])
                | None \<Rightarrow>
                    Get_tiers ctx key mv ps (missingIn @ [(i, provider)]) s1
                      (tr @ [CallGet i ctx key mv v err]))))"

text \<open>The write-back loop (lines 47 to 51): a failed write is logged and nothing more.\<close>

fun Get_writeback :: "Context \<Rightarrow> (string \<rightharpoonup> 't option) \<Rightarrow> Duration \<Rightarrow> (nat \<times> ('s, 't, 'v) Provider) list
    \<Rightarrow> 's \<Rightarrow> ('t, 'v) event list \<Rightarrow> 's \<times> ('t, 'v) event list" where
  "Get_writeback ctx setMap d [] s tr = (s, tr)"
| "Get_writeback ctx setMap d ((i, m) # ms) s tr =
     (case Provider_MSet m ctx setMap d s of
        (err, s1) \<Rightarrow>
          Get_writeback ctx setMap d ms s1
            (tr @ CallMSet i ctx setMap d err # (case err of Some e \<Rightarrow> [Log e] | None \<Rightarrow> [])))"

text \<open>
  \<open>Get\<close> returns the pair \<open>(*T, error)\<close> of the Go function, the state after the call
  and the trace.  The origin function \<open>fn\<close> may be nil (\<open>None\<close>).
\<close>

definition Cache_Get :: "('s, 't, 'v) Cache \<Rightarrow> Context \<Rightarrow> 'v Key
    \<Rightarrow> (Context \<Rightarrow> 'v Key \<Rightarrow> 's \<Rightarrow> ('t option \<times> error option) \<times> 's) option \<Rightarrow> 's
    \<Rightarrow> ('t option \<times> error option) \<times> 's \<times> ('t, 'v) event list" where
  "Cache_Get c ctx key fn s =
     (case Get_tiers ctx key (modelVersion (builder c)) (enumerate 0 (providers (builder c))) [] s [] of
        (finalValue, missingIn, s1, tr1) \<Rightarrow>
          (case
             (if finalValue = None then
                (case fn of
                   None \<Rightarrow> Inl (New ''get single from source is not defined'', s1, tr1)
                 | Some f \<Rightarrow>
                     (case f ctx key s1 of
                        ((v, err), s2) \<Rightarrow>
                          (case err of
                             Some e \<Rightarrow>
                               Inl (Wrap e ''can not get from source'', s2,
                                    tr1 @ [CallSingleFn ctx key v err])
                           | None \<Rightarrow> Inr (v, s2, tr1 @ [CallSingleFn ctx key v err]))))
              else Inr (finalValue, s1, tr1))
           of
             Inl (e, s2, tr2) \<Rightarrow> ((None, Some e), s2, tr2)
           | Inr (finalValue', s2, tr2) \<Rightarrow>
               (if missingIn \<noteq> [] then
                  (case Get_writeback ctx [Key key \<mapsto> finalValue'] (ttl (builder c)) missingIn s2 tr2 of
                     (s3, tr3) \<Rightarrow> ((finalValue', None), s3, tr3))
                else ((finalValue', None), s2, tr2))))"

section \<open>Batch lookup (cache.go, MGet)\<close>

text \<open>
  The loop over the tiers (lines 63 to 87): \<open>toQuery\<close> narrows to what the last tier
  without an error reported missing; \<open>missingIn\<close> collects the \<open>missingData\<close>
  records, here triples of the tier's position, the tier and its missing keys.
\<close>

fun MGet_tiers :: "Context \<Rightarrow> 16 word \<Rightarrow> (nat \<times> ('s, 't, 'v) Provider) list \<Rightarrow> 'v Key list
    \<Rightarrow> ('v Key \<rightharpoonup> 't option) \<Rightarrow> (nat \<times> ('s, 't, 'v) Provider \<times> 'v Key list) list \<Rightarrow> 's
    \<Rightarrow> ('t, 'v) event list
    \<Rightarrow> 'v Key list \<times> ('v Key \<rightharpoonup> 't option) \<times> (nat \<times> ('s, 't, 'v) Provider \<times> 'v Key list) list
        \<times> 's \<times> ('t, 'v) event list" where
  "MGet_tiers ctx mv [] toQuery finalResults missingIn s tr = (toQuery, finalResults, missingIn, s, tr)"
| "MGet_tiers ctx mv ((i, provider) # ps) toQuery finalResults missingIn s tr =
     (case Provider_MGet provider ctx toQuery mv s of
        ((found, missing, err), s1) \<Rightarrow>
          (case err of
             Some e \<Rightarrow>
               MGet_tiers ctx mv ps toQuery finalResults missingIn s1
                 (tr @ [CallMGet i ctx toQuery mv found missing err, Log e])
           | None \<Rightarrow>
               (if missing = [] then
                  (missing, finalResults ++ found, missingIn, s1,
                   tr @ [CallMGet i ctx toQuery mv found missing err])
                else
                  MGet_tiers ctx mv ps missing (finalResults ++ found)
                    (missingIn @ [(i, provider, missing)]) s1
                    (tr @ [CallMGet i ctx toQuery mv found missing err]))))"

text \<open>
  The body of the goroutine of lines 109 to 122.  It is started and not awaited, so
  \<open>MGet\<close> returns it as a value: the captured \<open>missingIn\<close> and \<open>valuesFromSource\<close>,
  and the builder's ttl.  Running it is \<open>Backfill_run\<close>, on whatever the state
  is by then.
\<close>

fun Backfill_toSet :: "'v Key list \<Rightarrow> ('v Key \<rightharpoonup> 't option) \<Rightarrow> (string \<rightharpoonup> 't option) \<Rightarrow> (string \<rightharpoonup> 't option)" where
  "Backfill_toSet [] valuesFromSource toSet = toSet"
| "Backfill_toSet (k # ks) valuesFromSource toSet =
     (case valuesFromSource k of
        Some v \<Rightarrow> Backfill_toSet ks valuesFromSource (toSet(Key k \<mapsto> v))
      | None \<Rightarrow> Backfill_toSet ks valuesFromSource toSet)"

record ('s, 't, 'v) Backfill =
  bf_missingIn :: "(nat \<times> ('s, 't, 'v) Provider \<times> 'v Key list) list"
  bf_valuesFromSource :: "'v Key \<rightharpoonup> 't option"
  bf_ttl :: Duration

fun Backfill_loop :: "(nat \<times> ('s, 't, 'v) Provider \<times> 'v Key list) list \<Rightarrow> ('v Key \<rightharpoonup> 't option) \<Rightarrow> Duration
    \<Rightarrow> 's \<Rightarrow> ('t, 'v) event list \<Rightarrow> 's \<times> ('t, 'v) event list" where
  "Backfill_loop [] valuesFromSource d s tr = (s, tr)"
| "Backfill_loop ((i, provider, missingKeys) # ms) valuesFromSource d s tr =
     (let toSet = Backfill_toSet missingKeys valuesFromSource Map.empty in
      case Provider_MSet provider Background toSet d s of
        (err, s1) \<Rightarrow>
          Backfill_loop ms valuesFromSource d s1
            (tr @ CallMSet i Background toSet d err # (case err of Some e \<Rightarrow> [Log e] | None \<Rightarrow> [])))"

definition Backfill_run :: "('s, 't, 'v) Backfill \<Rightarrow> 's \<Rightarrow> 's \<times> ('t, 'v) event list" where
  "Backfill_run g s = Backfill_loop (bf_missingIn g) (bf_valuesFromSource g) (bf_ttl g) s []"

text \<open>
  \<open>MGet\<close> returns the pair \<open>(map, error)\<close> of the Go function (a nil map is \<open>None\<close>),
  the goroutine it started if any, the state and the trace of the synchronous part.
\<close>

definition Cache_MGet :: "('s, 't, 'v) Cache \<Rightarrow> Context \<Rightarrow> 'v Key list
    \<Rightarrow> (Context \<Rightarrow> 'v Key list \<Rightarrow> 's \<Rightarrow> (('v Key \<rightharpoonup> 't option) \<times> error option) \<times> 's) option \<Rightarrow> 's
    \<Rightarrow> (('v Key \<rightharpoonup> 't option) option \<times> error option) \<times> ('s, 't, 'v) Backfill option \<times> 's
        \<times> ('t, 'v) event list" where
  "Cache_MGet c ctx keys fn s =
     (case MGet_tiers ctx (modelVersion (builder c)) (enumerate 0 (providers (builder c))) keys Map.empty [] s [] of
        (toQuery, finalResults, missingIn, s1, tr1) \<Rightarrow>
          (case
             (if toQuery \<noteq> [] then
                (case fn of
                   None \<Rightarrow> Inl (New ''get single from source is not defined'', s1, tr1)
                 | Some f \<Rightarrow>
                     (case f ctx toQuery s1 of
                        ((newValues, err), s2) \<Rightarrow>
                          (case err of
                             Some e \<Rightarrow>
                               Inl (Wrap e ''can not get from source'', s2,
                                    tr1 @ [CallFn ctx toQuery newValues err])
                           | None \<Rightarrow>
                               Inr (newValues, finalResults ++ newValues, s2,
                                    tr1 @ [CallFn ctx toQuery newValues err]))))
              else Inr (Map.empty, finalResults, s1, tr1))
           of
             Inl (e, s2, tr2) \<Rightarrow> ((None, Some e), None, s2, tr2)
           | Inr (valuesFromSource, finalResults', s2, tr2) \<Rightarrow>
               ((Some finalResults', None),
                (if missingIn \<noteq> [] \<and> valuesFromSource \<noteq> Map.empty then
                   Some \<lparr>bf_missingIn = missingIn, bf_valuesFromSource = valuesFromSource,
                         bf_ttl = ttl (builder c)\<rparr>
                 else None),
                s2, tr2)))"


section \<open>Reading a trace\<close>

fun MSet_call_of :: "('t, 'v) event \<Rightarrow> (nat \<times> Context \<times> (string \<rightharpoonup> 't option) \<times> Duration) list" where
  "MSet_call_of (CallMSet i ctx m d err) = [(i, ctx, m, d)]"
| "MSet_call_of _ = []"

fun MSet_failure_of :: "('t, 'v) event \<Rightarrow> error list" where
  "MSet_failure_of (CallMSet i ctx m d (Some e)) = [e]"
| "MSet_failure_of _ = []"

fun read_of :: "('t, 'v) event \<Rightarrow> nat list" where
  "read_of (CallGet i ctx k mv v err) = [i]"
| "read_of (CallMGet i ctx ks mv found missing err) = [i]"
| "read_of _ = []"

fun absent_of :: "('t, 'v) event \<Rightarrow> nat list" where
  "absent_of (CallGet i ctx k mv None None) = [i]"
| "absent_of _ = []"

fun is_source_call :: "('t, 'v) event \<Rightarrow> bool" where
  "is_source_call (CallSingleFn ctx k v err) = True"
| "is_source_call (CallFn ctx ks m err) = True"
| "is_source_call _ = False"

text \<open>The \<open>MSet\<close> calls of a trace in order, each as (tier, context, map, ttl).\<close>

definition MSet_calls :: "('t, 'v) event list \<Rightarrow> (nat \<times> Context \<times> (string \<rightharpoonup> 't option) \<times> Duration) list" where
  "MSet_calls tr = concat (map MSet_call_of tr)"

text \<open>The errors the \<open>MSet\<close> calls of a trace returned, in order.\<close>

definition MSet_failures :: "('t, 'v) event list \<Rightarrow> error list" where
  "MSet_failures tr = concat (map MSet_failure_of tr)"

text \<open>The tiers whose \<open>Get\<close> or \<open>MGet\<close> a trace invokes, in order.\<close>

definition tier_reads :: "('t, 'v) event list \<Rightarrow> nat list" where
  "tier_reads tr = concat (map read_of tr)"

text \<open>The tiers whose \<open>Get\<close> returned absent: a nil value and a nil error.\<close>

definition tiers_absent :: "('t, 'v) event list \<Rightarrow> nat list" where
  "tiers_absent tr = concat (map absent_of tr)"

definition source_calls :: "('t, 'v) event list \<Rightarrow> ('t, 'v) event list" where
  "source_calls tr = filter is_source_call tr"



fun missing_of :: "('t, 'v) event \<Rightarrow> (nat \<times> 'v Key list) list" where
  "missing_of (CallMGet i ctx ks mv found missing None) = (if missing \<noteq> [] then [(i, missing)] else [])"
| "missing_of _ = []"

text \<open>
  The tiers whose \<open>MGet\<close> returned no error and a non-empty missing list, each
  with that list.
\<close>

definition tiers_missing :: "('t, 'v) event list \<Rightarrow> (nat \<times> 'v Key list) list" where
  "tiers_missing tr = concat (map missing_of tr)"

fun MSet_result_of :: "('t, 'v) event \<Rightarrow> error option list" where
  "MSet_result_of (CallMSet i ctx m d err) = [err]"
| "MSet_result_of _ = []"

text \<open>What the \<open>MSet\<close> calls of a trace returned, in order, nil or an error.\<close>

definition MSet_results :: "('t, 'v) event list \<Rightarrow> error option list" where
  "MSet_results tr = concat (map MSet_result_of tr)"

text \<open>
  One write as the tier performs it: \<open>Provider_MSet\<close> applied to the state reached
  so far, its return value added to those of the earlier writes, and the state it
  leaves.  Folded over a list of tiers it is what writing to them in turn does.
\<close>

definition write_step :: "('s, 't, 'v) Provider \<Rightarrow> Context \<Rightarrow> (string \<rightharpoonup> 't option) \<Rightarrow> Duration
    \<Rightarrow> error option list \<times> 's \<Rightarrow> error option list \<times> 's" where
  "write_step p ctx m d acc =
     (case Provider_MSet p ctx m d (snd acc) of (err, s1) \<Rightarrow> (fst acc @ [err], s1))"

section \<open>The distributed-store tier (provider_redis.go)\<close>

text \<open>
  What the tier needs of the entity type \<open>T\<close>: \<open>msgpack.Unmarshal\<close> into a \<open>T\<close>
  (an error or the decoded item) and the method \<open>GetCacheModelVersion\<close>.  Both
  come with the type, so they are parameters of the model.
\<close>

record 't Entity =
  Unmarshal :: "string \<Rightarrow> error + 't"
  GetCacheModelVersion :: "'t \<Rightarrow> 16 word"

text \<open>An element of \<open>cmd.Val()\<close>, of Go type \<open>interface{}\<close>: nil, a byte slice, a string, or else.\<close>

datatype iface = INil | IBytes string | IString string | IOther

text \<open>
  The client \<open>redis.Cmdable\<close> is the go-redis library, not code of this
  repository.  Its \<open>MGet\<close> is modelled as the Redis command behaves over fixed
  store contents: the call fails as a whole (\<open>failure\<close>, a transport error) or
  returns one slot per requested key, in the order of the request, nil for a key
  the store does not hold.
\<close>

record Cmdable =
  reply :: "string \<Rightarrow> iface"
  failure :: "Context \<Rightarrow> string list \<Rightarrow> error option"

record SliceCmd =
  Err :: "error option"
  Val :: "iface list"

definition Cmdable_MGet :: "Cmdable \<Rightarrow> Context \<Rightarrow> string list \<Rightarrow> SliceCmd" where
  "Cmdable_MGet cl ctx ks =
     (case failure cl ctx ks of
        Some e \<Rightarrow> \<lparr>Err = Some e, Val = []\<rparr>
      | None \<Rightarrow> \<lparr>Err = None, Val = map (reply cl) ks\<rparr>)"

record RedisCache =
  client :: Cmdable
  chunkSize :: int

definition NewRedisCache :: "Cmdable \<Rightarrow> RedisCache" where
  "NewRedisCache cl = \<lparr>client = cl, chunkSize = 100\<rparr>"

text \<open>
  \<open>chunkBy\<close> (lines 55 to 60).  With a negative \<open>chunkSize\<close> the slice expression
  \<open>items[chunkSize:]\<close> panics; with \<open>chunkSize = 0\<close> and a non-empty list the loop
  never ends, which is the value \<open>None\<close>.
\<close>

datatype panic = SliceBoundsOutOfRange

partial_function (option) chunkBy :: "'a list \<Rightarrow> int \<Rightarrow> 'a list list \<Rightarrow> (panic + 'a list list) option" where
  "chunkBy items chunkSize' chunks =
     (if chunkSize' < int (length items) then
        (if chunkSize' < 0 then Some (Inl SliceBoundsOutOfRange)
         else chunkBy (drop (nat chunkSize') items) chunkSize' (chunks @ [take (nat chunkSize') items]))
      else Some (Inr (chunks @ [items])))"

record ('t, 'v) redisChunkResponse =
  Error :: "error option"
  Missing :: "'v Key list"
  Results :: "'v Key \<rightharpoonup> 't option"

text \<open>
  The loop over \<open>cmd.Val()\<close> (lines 101 to 129).  \<open>keys\<close> is the slice the loop
  indexes with the slot's position: \<open>chCopy\<close> in provider\_redis.go.  The position
  is in range, since the reply has one slot per key of the chunk.
\<close>

definition toUnpack :: "iface \<Rightarrow> string" where
  "toUnpack v = (case v of IBytes val \<Rightarrow> val | IString val \<Rightarrow> val | _ \<Rightarrow> [])"

fun MGet_slots :: "'t Entity \<Rightarrow> 16 word \<Rightarrow> 'v Key list \<Rightarrow> (nat \<times> iface) list \<Rightarrow> 'v Key list
    \<Rightarrow> ('v Key \<rightharpoonup> 't option) \<Rightarrow> 'v Key list \<times> ('v Key \<rightharpoonup> 't option)" where
  "MGet_slots en rmv keys [] missing results = (missing, results)"
| "MGet_slots en rmv keys ((i, v) # rest) missing results =
     (if v = INil then MGet_slots en rmv keys rest (missing @ [keys ! i]) results
      else
        (case Unmarshal en (toUnpack v) of
           Inl err \<Rightarrow> MGet_slots en rmv keys rest (missing @ [keys ! i]) results
         | Inr item \<Rightarrow>
             (if GetCacheModelVersion en item \<noteq> rmv then MGet_slots en rmv keys rest missing results
              else MGet_slots en rmv keys rest missing (results(keys ! i \<mapsto> Some item)))))"

text \<open>The body of the goroutine started for one chunk (lines 78 to 135).\<close>

definition MGet_chunk :: "RedisCache \<Rightarrow> 't Entity \<Rightarrow> Context \<Rightarrow> 16 word \<Rightarrow> 'v Key list
    \<Rightarrow> ('t, 'v) redisChunkResponse" where
  "MGet_chunk r en ctx rmv chCopy =
     (let strSlice = map Key chCopy;
          cmd = Cmdable_MGet (client r) ctx strSlice
      in case Err cmd of
           Some e \<Rightarrow> \<lparr>Error = Some (WithStack e), Missing = [], Results = Map.empty\<rparr>
         | None \<Rightarrow>
             (case MGet_slots en rmv chCopy (enumerate 0 (Val cmd)) [] Map.empty of
                (missing, results) \<Rightarrow> \<lparr>Error = None, Missing = missing, Results = results\<rparr>))"

text \<open>The collector (lines 141 to 156) reads the channels in the order of the chunks.\<close>

fun MGet_collect :: "('t, 'v) redisChunkResponse list \<Rightarrow> 'v Key list \<Rightarrow> ('v Key \<rightharpoonup> 't option)
    \<Rightarrow> 'v Key list \<times> ('v Key \<rightharpoonup> 't option)" where
  "MGet_collect [] missing results = (missing, results)"
| "MGet_collect (resp # rs) missing results =
     (case Error resp of
        Some e \<Rightarrow> MGet_collect rs missing results
      | None \<Rightarrow>
          MGet_collect rs (if Missing resp \<noteq> [] then missing @ Missing resp else missing)
            (results ++ Results resp))"

text \<open>
  \<open>MGet\<close> (lines 68 to 159).  The goroutines run concurrently; over fixed store
  contents each response depends on its chunk alone, and the collector takes the
  responses in chunk order, so the result is that of running them in turn.  The
  value returned is \<open>None\<close> when \<open>chunkBy\<close> does not return, a panic, or the triple
  of the Go function together with the batch calls issued, one per chunk.
\<close>

definition RedisCache_MGet :: "RedisCache \<Rightarrow> 't Entity \<Rightarrow> Context \<Rightarrow> 'v Key list \<Rightarrow> 16 word
    \<Rightarrow> (panic + (('v Key \<rightharpoonup> 't option) \<times> 'v Key list \<times> error option) \<times> string list list) option" where
  "RedisCache_MGet r en ctx keys requiredModelVersion =
     (case chunkBy keys (chunkSize r) [] of
        None \<Rightarrow> None
      | Some (Inl p) \<Rightarrow> Some (Inl p)
      | Some (Inr chunks) \<Rightarrow>
          (case MGet_collect (map (MGet_chunk r en ctx requiredModelVersion) chunks) [] Map.empty of
             (missing, results) \<Rightarrow> Some (Inr ((results, missing, None), map (map Key) chunks))))"

section \<open>The distributed-store tier, earlier revision (src/unnamed/part\_000)\<close>

text \<open>
  The same \<open>chunkBy\<close>, over the strings \<open>toGet1\<close>; the goroutine passes its chunk
  of strings to the client and indexes the whole slice \<open>keys\<close> with the position
  of the slot in the chunk's reply (lines 99 to 127).
\<close>

definition MGet_chunk_part000 :: "RedisCache \<Rightarrow> 't Entity \<Rightarrow> Context \<Rightarrow> 16 word \<Rightarrow> 'v Key list
    \<Rightarrow> string list \<Rightarrow> ('t, 'v) redisChunkResponse" where
  "MGet_chunk_part000 r en ctx rmv keys chCopy =
     (let cmd = Cmdable_MGet (client r) ctx chCopy
      in case Err cmd of
           Some e \<Rightarrow> \<lparr>Error = Some (WithStack e), Missing = [], Results = Map.empty\<rparr>
         | None \<Rightarrow>
             (case MGet_slots en rmv keys (enumerate 0 (Val cmd)) [] Map.empty of
                (missing, results) \<Rightarrow> \<lparr>Error = None, Missing = missing, Results = results\<rparr>))"

definition RedisCache_MGet_part000 :: "RedisCache \<Rightarrow> 't Entity \<Rightarrow> Context \<Rightarrow> 'v Key list \<Rightarrow> 16 word
    \<Rightarrow> (panic + (('v Key \<rightharpoonup> 't option) \<times> 'v Key list \<times> error option) \<times> string list list) option" where
  "RedisCache_MGet_part000 r en ctx keys requiredModelVersion =
     (let toGet1 = map Key keys in
      case chunkBy toGet1 (chunkSize r) [] of
        None \<Rightarrow> None
      | Some (Inl p) \<Rightarrow> Some (Inl p)
      | Some (Inr chunks) \<Rightarrow>
          (case MGet_collect (map (MGet_chunk_part000 r en ctx requiredModelVersion keys) chunks) [] Map.empty of
             (missing, results) \<Rightarrow> Some (Inr ((results, missing, None), chunks))))"

section \<open>How the distributed-store tier classifies a key\<close>

text \<open>
  Over fixed store contents the slot of a key depends on its cacheKey alone.
  \<open>slot_missing\<close>: the slot is nil or does not decode.  \<open>slot_found\<close>: the decoded
  item when the slot decodes with the required version.  \<open>slot_stale\<close>: the slot
  decodes with another version.
\<close>

definition slot_missing :: "'t Entity \<Rightarrow> Cmdable \<Rightarrow> 'v Key \<Rightarrow> bool" where
  "slot_missing en cl k =
     (reply cl (Key k) = INil \<or> (case Unmarshal en (toUnpack (reply cl (Key k))) of Inl e \<Rightarrow> True | Inr item \<Rightarrow> False))"

definition slot_found :: "'t Entity \<Rightarrow> 16 word \<Rightarrow> Cmdable \<Rightarrow> 'v Key \<Rightarrow> 't option option" where
  "slot_found en rmv cl k =
     (if reply cl (Key k) = INil then None
      else (case Unmarshal en (toUnpack (reply cl (Key k))) of
              Inl e \<Rightarrow> None
            | Inr item \<Rightarrow> if GetCacheModelVersion en item = rmv then Some (Some item) else None))"

definition slot_stale :: "'t Entity \<Rightarrow> 16 word \<Rightarrow> Cmdable \<Rightarrow> 'v Key \<Rightarrow> bool" where
  "slot_stale en rmv cl k =
     (reply cl (Key k) \<noteq> INil \<and>
      (case Unmarshal en (toUnpack (reply cl (Key k))) of
         Inl e \<Rightarrow> False
       | Inr item \<Rightarrow> GetCacheModelVersion en item \<noteq> rmv))"

text \<open>The chunks whose batch call did not fail.\<close>

definition answered :: "RedisCache \<Rightarrow> Context \<Rightarrow> 'v Key list list \<Rightarrow> 'v Key list list" where
  "answered r ctx chunks = filter (\<lambda>ch. failure (client r) ctx (map Key ch) = None) chunks"

section \<open>Example tiers and origins\<close>

text \<open>
  Small tiers over a state that counts the writes accepted so far; the entities
  and the original values of the keys are numbers.
\<close>

definition key1 :: "nat Key" where
  "key1 = \<lparr>ref = 1, Key = ''k1'', OriginalValue = 1\<rparr>"

definition key2 :: "nat Key" where
  "key2 = \<lparr>ref = 2, Key = ''k2'', OriginalValue = 2\<rparr>"

text \<open>A tier that holds nothing and accepts every write.\<close>

definition tier_empty :: "(nat, nat, nat) Provider" where
  "tier_empty =
     \<lparr>Provider_Get = (\<lambda>ctx k mv s. ((None, None), s)),
      Provider_MGet = (\<lambda>ctx ks mv s. ((Map.empty, ks, None), s)),
      Provider_MSet = (\<lambda>ctx m d s. (None, Suc s))\<rparr>"

text \<open>A tier that holds nothing and refuses every write.\<close>

definition tier_readonly :: "(nat, nat, nat) Provider" where
  "tier_readonly =
     \<lparr>Provider_Get = (\<lambda>ctx k mv s. ((None, None), s)),
      Provider_MGet = (\<lambda>ctx ks mv s. ((Map.empty, ks, None), s)),
      Provider_MSet = (\<lambda>ctx m d s. (Some (New ''read only''), s))\<rparr>"

text \<open>
  A tier that holds nothing until a write has been accepted, and from then on
  holds, under every key, the number of writes accepted.
\<close>

definition tier_late :: "(nat, nat, nat) Provider" where
  "tier_late =
     \<lparr>Provider_Get = (\<lambda>ctx k mv s. ((if s = 0 then None else Some s, None), s)),
      Provider_MGet = (\<lambda>ctx ks mv s.
         (if s = 0 then (Map.empty, ks, None)
          else (map_of (map (\<lambda>k. (k, Some s)) ks), [], None), s)),
      Provider_MSet = (\<lambda>ctx m d s. (None, Suc s))\<rparr>"

text \<open>A tier that holds the value \<open>x\<close> under the key \<open>k\<close> and nothing else.\<close>

definition tier_with :: "nat Key \<Rightarrow> nat \<Rightarrow> (nat, nat, nat) Provider" where
  "tier_with k x =
     \<lparr>Provider_Get = (\<lambda>ctx k' mv s. ((if k' = k then Some x else None, None), s)),
      Provider_MGet = (\<lambda>ctx ks mv s.
         ((if k \<in> set ks then [k \<mapsto> Some x] else Map.empty, removeAll k ks, None), s)),
      Provider_MSet = (\<lambda>ctx m d s. (None, Suc s))\<rparr>"

text \<open>Origins: one that fails, one that returns a nil entity, one that knows every key.\<close>

definition source_down :: "Context \<Rightarrow> nat Key list \<Rightarrow> nat \<Rightarrow> ((nat Key \<rightharpoonup> nat option) \<times> error option) \<times> nat" where
  "source_down ctx ks s = ((Map.empty, Some (New ''db down'')), s)"

definition source_nil :: "Context \<Rightarrow> nat Key \<Rightarrow> nat \<Rightarrow> (nat option \<times> error option) \<times> nat" where
  "source_nil ctx k s = ((None, None), s)"

definition source_single :: "Context \<Rightarrow> nat Key \<Rightarrow> nat \<Rightarrow> (nat option \<times> error option) \<times> nat" where
  "source_single ctx k s = ((Some (10 + OriginalValue k), None), s)"

definition source_all :: "Context \<Rightarrow> nat Key list \<Rightarrow> nat \<Rightarrow> ((nat Key \<rightharpoonup> nat option) \<times> error option) \<times> nat" where
  "source_all ctx ks s = ((map_of (map (\<lambda>k. (k, Some (10 + OriginalValue k))) ks), None), s)"

text \<open>
  An entity type for the distributed-store tier: the payload decodes to its length,
  an empty payload does not decode, and the model version of an item is the item.
\<close>

definition entity_len :: "nat Entity" where
  "entity_len =
     \<lparr>Unmarshal = (\<lambda>b. if b = [] then Inl (New ''EOF'') else Inr (length b)),
      GetCacheModelVersion = (\<lambda>item. of_nat item)\<rparr>"

text \<open>The key number \<open>i\<close>, its cacheKey \<open>i\<close> letters long, and the first \<open>n\<close> keys.\<close>

definition key_n :: "nat \<Rightarrow> nat Key" where
  "key_n i = \<lparr>ref = i, Key = replicate i CHR ''k'', OriginalValue = i\<rparr>"

definition keys_upto :: "nat \<Rightarrow> nat Key list" where
  "keys_upto n = map key_n [0..<n]"

text \<open>A store that answers every call and holds one value, under the cacheKey of key 100.\<close>

definition store_last :: Cmdable where
  "store_last =
     \<lparr>reply = (\<lambda>s. if s = replicate 100 CHR ''k'' then IString ''v'' else INil),
      failure = (\<lambda>ctx ks. None)\<rparr>"

text \<open>
  A store whose slot depends on the length of the cacheKey: length 1 is not held,
  length 2 holds a value of version 2, length 3 a payload that does not decode,
  every other length a value of version 1.  A batch call fails when the first
  cacheKey asked has length 4.
\<close>

definition store_mixed :: Cmdable where
  "store_mixed =
     \<lparr>reply = (\<lambda>s. if length s = 1 then INil
                     else if length s = 2 then IString ''vv''
                     else if length s = 3 then IString []
                     else IString ''v''),
      failure = (\<lambda>ctx ks. if ks \<noteq> [] \<and> length (hd ks) = 4 then Some (New ''timeout'') else None)\<rparr>"

section \<open>Lemmas on the loops\<close>

lemma MSet_calls_append: "MSet_calls (a @ b) = MSet_calls a @ MSet_calls b"
  by (simp add: MSet_calls_def)

lemma MSet_failures_append: "MSet_failures (a @ b) = MSet_failures a @ MSet_failures b"
  by (simp add: MSet_failures_def)

lemma tier_reads_append: "tier_reads (a @ b) = tier_reads a @ tier_reads b"
  by (simp add: tier_reads_def)

lemma tiers_absent_append: "tiers_absent (a @ b) = tiers_absent a @ tiers_absent b"
  by (simp add: tiers_absent_def)

lemma source_calls_append: "source_calls (a @ b) = source_calls a @ source_calls b"
  by (simp add: source_calls_def)



lemma tiers_missing_append: "tiers_missing (a @ b) = tiers_missing a @ tiers_missing b"
  by (simp add: tiers_missing_def)

lemmas trace_defs = MSet_calls_def MSet_failures_def tier_reads_def tiers_absent_def
  source_calls_def tiers_missing_def

lemma Get_tiers_trace:
  "Get_tiers ctx key mv (enumerate n ps) mi s tr = (fv, mi', s', tr') \<Longrightarrow>
   \<exists>new. tr' = tr @ new \<and> MSet_calls new = [] \<and> source_calls new = []
     \<and> map fst mi' = map fst mi @ tiers_absent new
     \<and> (fv = None \<longrightarrow> tier_reads new = map fst (enumerate n ps))"
proof (induction ps arbitrary: n mi s tr)
  case Nil
  then show ?case by (simp add: trace_defs)
next
  case (Cons p ps)
  obtain v e s1 where g: "Provider_Get p ctx key mv s = ((v, e), s1)"
    by (metis prod.exhaust)
  show ?case
  proof (cases e)
    case (Some er)
    with Cons.prems g
    have "Get_tiers ctx key mv (enumerate (Suc n) ps) mi s1 (tr @ [CallGet n ctx key mv v e, Log er])
          = (fv, mi', s', tr')" by simp
    from Cons.IH[OF this] obtain new where new:
      "tr' = (tr @ [CallGet n ctx key mv v e, Log er]) @ new" "MSet_calls new = []"
      "source_calls new = []" "map fst mi' = map fst mi @ tiers_absent new"
      "fv = None \<longrightarrow> tier_reads new = map fst (enumerate (Suc n) ps)"
      by blast
    show ?thesis
      using new Some
      by (intro exI[of _ "CallGet n ctx key mv v e # Log er # new"]) (simp add: trace_defs)
  next
    case None
    show ?thesis
    proof (cases v)
      case (Some x)
      with None Cons.prems g
      have "fv = Some x" "mi' = mi" "tr' = tr @ [CallGet n ctx key mv v e]" by auto
      then show ?thesis using Some None
        by (intro exI[of _ "[CallGet n ctx key mv v e]"]) (simp add: trace_defs)
    next
      case vNone: None
      with None Cons.prems g
      have "Get_tiers ctx key mv (enumerate (Suc n) ps) (mi @ [(n, p)]) s1 (tr @ [CallGet n ctx key mv v e])
            = (fv, mi', s', tr')" by simp
      from Cons.IH[OF this] obtain new where new:
        "tr' = (tr @ [CallGet n ctx key mv v e]) @ new" "MSet_calls new = []"
        "source_calls new = []" "map fst mi' = map fst (mi @ [(n, p)]) @ tiers_absent new"
        "fv = None \<longrightarrow> tier_reads new = map fst (enumerate (Suc n) ps)"
        by blast
      show ?thesis
        using new None vNone
        by (intro exI[of _ "CallGet n ctx key mv v e # new"]) (simp add: trace_defs)
    qed
  qed
qed

text \<open>The position recorded with a tier is the tier's position in the configured list.\<close>

lemma enumerate_labels:
  "(i, p) \<in> set (enumerate n ps) \<Longrightarrow> n \<le> i \<and> i < n + length ps \<and> ps ! (i - n) = p"
  by (auto simp: in_set_enumerate_eq)

lemma Get_tiers_labels:
  "Get_tiers ctx key mv xs mi s tr = (fv, mi', s', tr') \<Longrightarrow> set mi' \<subseteq> set mi \<union> set xs"
proof (induction xs arbitrary: mi s tr)
  case Nil
  then show ?case by simp
next
  case (Cons x xs)
  obtain i p where x: "x = (i, p)" by (cases x)
  obtain v e s1 where g: "Provider_Get p ctx key mv s = ((v, e), s1)"
    by (metis prod.exhaust)
  show ?case
  proof (cases e)
    case (Some er)
    with Cons.prems g x
    have "Get_tiers ctx key mv xs mi s1 (tr @ [CallGet i ctx key mv v e, Log er]) = (fv, mi', s', tr')"
      by simp
    from Cons.IH[OF this] show ?thesis by auto
  next
    case None
    show ?thesis
    proof (cases v)
      case (Some y)
      with None Cons.prems g x have "mi' = mi" by simp
      then show ?thesis by auto
    next
      case vNone: None
      with None Cons.prems g x
      have "Get_tiers ctx key mv xs (mi @ [(i, p)]) s1 (tr @ [CallGet i ctx key mv v e]) = (fv, mi', s', tr')"
        by simp
      from Cons.IH[OF this] show ?thesis using x by auto
    qed
  qed
qed

lemma Get_writeback_trace:
  "Get_writeback ctx m d mi s tr = (s', tr') \<Longrightarrow>
   \<exists>new. tr' = tr @ new \<and> MSet_calls new = map (\<lambda>ip. (fst ip, ctx, m, d)) mi
     \<and> tiers_absent new = [] \<and> tier_reads new = [] \<and> source_calls new = []"
proof (induction mi arbitrary: s tr)
  case Nil
  then show ?case by (simp add: trace_defs)
next
  case (Cons x mi)
  obtain i p where x: "x = (i, p)" by (cases x)
  obtain e s1 where w: "Provider_MSet p ctx m d s = (e, s1)" by (metis prod.exhaust)
  let ?ev = "CallMSet i ctx m d e # (case e of Some e \<Rightarrow> [Log e] | None \<Rightarrow> [])"
  from Cons.prems x w
  have "Get_writeback ctx m d mi s1 (tr @ ?ev) = (s', tr')" by simp
  from Cons.IH[OF this] obtain new where new:
    "tr' = (tr @ ?ev) @ new" "MSet_calls new = map (\<lambda>ip. (fst ip, ctx, m, d)) mi"
    "tiers_absent new = []" "tier_reads new = []" "source_calls new = []"
    by blast
  show ?case
    using new x
    by (intro exI[of _ "?ev @ new"]) (cases e; simp add: trace_defs)
qed

lemma Get_tiers_all_absent:
  "Get_tiers ctx key mv xs mi s tr = (fv, mi', s', tr') \<Longrightarrow>
   \<forall>x\<in>set xs. \<forall>s. fst (Provider_Get (snd x) ctx key mv s) = (None, None) \<Longrightarrow>
   fv = None \<and> mi' = mi @ xs"
proof (induction xs arbitrary: mi s tr)
  case Nil
  then show ?case by simp
next
  case (Cons x xs)
  obtain i p where x: "x = (i, p)" by (cases x)
  from Cons.prems(2) x have "fst (Provider_Get p ctx key mv s) = (None, None)" by simp
  then obtain s1 where g: "Provider_Get p ctx key mv s = ((None, None), s1)"
    by (metis prod.collapse)
  with Cons.prems(1) x
  have "Get_tiers ctx key mv xs (mi @ [(i, p)]) s1 (tr @ [CallGet i ctx key mv None None]) = (fv, mi', s', tr')"
    by simp
  from Cons.IH[OF this] Cons.prems(2) show ?case using x by simp
qed


lemma MSet_results_append: "MSet_results (a @ b) = MSet_results a @ MSet_results b"
  by (simp add: MSet_results_def)

lemma MSet_results_length: "length (MSet_results tr) = length (MSet_calls tr)"
proof (induction tr)
  case Nil
  show ?case by (simp add: MSet_results_def MSet_calls_def)
next
  case (Cons e tr)
  then show ?case by (cases e) (simp_all add: MSet_results_def MSet_calls_def)
qed

lemma MSet_results_none: "MSet_calls tr = [] \<Longrightarrow> MSet_results tr = []"
  using MSet_results_length[of tr] by simp

text \<open>A tier loop that ends with a value has left at least the winning tier out of \<open>missingIn\<close>.\<close>

lemma Get_tiers_win:
  "Get_tiers ctx key mv xs mi s tr = (fv, mi', s', tr') \<Longrightarrow> fv \<noteq> None \<Longrightarrow>
   length mi' < length mi + length xs"
proof (induction xs arbitrary: mi s tr)
  case Nil
  then show ?case by simp
next
  case (Cons x xs)
  obtain i p where x: "x = (i, p)" by (cases x)
  obtain v e s1 where g: "Provider_Get p ctx key mv s = ((v, e), s1)"
    by (metis prod.exhaust)
  show ?case
  proof (cases e)
    case (Some er)
    with Cons.prems g x
    have "Get_tiers ctx key mv xs mi s1 (tr @ [CallGet i ctx key mv v e, Log er]) = (fv, mi', s', tr')"
      by simp
    from Cons.IH[OF this Cons.prems(2)] show ?thesis by simp
  next
    case None
    show ?thesis
    proof (cases v)
      case (Some y)
      with None Cons.prems g x have "mi' = mi" by simp
      then show ?thesis by simp
    next
      case vNone: None
      with None Cons.prems g x
      have "Get_tiers ctx key mv xs (mi @ [(i, p)]) s1 (tr @ [CallGet i ctx key mv v e]) = (fv, mi', s', tr')"
        by simp
      from Cons.IH[OF this Cons.prems(2)] show ?thesis by simp
    qed
  qed
qed

text \<open>
  The write-back loop and the backfill loop apply \<open>Provider_MSet\<close> of each listed
  tier to the state the write before left; the trace holds what each returned.
\<close>

lemma Get_writeback_state:
  "Get_writeback ctx m d mi s tr = (s', tr') \<Longrightarrow>
   \<exists>new. tr' = tr @ new
     \<and> foldl (\<lambda>acc ip. write_step (snd ip) ctx m d acc) (errs, s) mi = (errs @ MSet_results new, s')"
proof (induction mi arbitrary: s tr errs)
  case Nil
  then show ?case by (simp add: MSet_results_def)
next
  case (Cons x mi)
  obtain i p where x: "x = (i, p)" by (cases x)
  obtain e s1 where w: "Provider_MSet p ctx m d s = (e, s1)" by (metis prod.exhaust)
  let ?ev = "CallMSet i ctx m d e # (case e of Some e \<Rightarrow> [Log e] | None \<Rightarrow> [])"
  from Cons.prems x w
  have "Get_writeback ctx m d mi s1 (tr @ ?ev) = (s', tr')" by simp
  from Cons.IH[OF this, of "errs @ [e]"] obtain new where new:
    "tr' = (tr @ ?ev) @ new"
    "foldl (\<lambda>acc ip. write_step (snd ip) ctx m d acc) (errs @ [e], s1) mi
       = ((errs @ [e]) @ MSet_results new, s')"
    by blast
  have step: "write_step (snd x) ctx m d (errs, s) = (errs @ [e], s1)"
    using x w by (simp add: write_step_def)
  show ?case
    using new step
    by (intro exI[of _ "?ev @ new"]) (cases e; simp add: MSet_results_def)
qed

lemma Backfill_loop_state:
  "Backfill_loop mi vs d s tr = (s', tr') \<Longrightarrow>
   \<exists>new. tr' = tr @ new
     \<and> foldl (\<lambda>acc x. write_step (fst (snd x)) Background (Backfill_toSet (snd (snd x)) vs Map.empty) d acc)
         (errs, s) mi = (errs @ MSet_results new, s')"
proof (induction mi arbitrary: s tr errs)
  case Nil
  then show ?case by (simp add: MSet_results_def)
next
  case (Cons x mi)
  obtain i p ks where x: "x = (i, p, ks)" by (cases x)
  let ?toSet = "Backfill_toSet ks vs Map.empty"
  obtain e s1 where w: "Provider_MSet p Background ?toSet d s = (e, s1)" by (metis prod.exhaust)
  let ?ev = "CallMSet i Background ?toSet d e # (case e of Some e \<Rightarrow> [Log e] | None \<Rightarrow> [])"
  from Cons.prems x w
  have "Backfill_loop mi vs d s1 (tr @ ?ev) = (s', tr')" by (simp add: Let_def)
  from Cons.IH[OF this, of "errs @ [e]"] obtain new where new:
    "tr' = (tr @ ?ev) @ new"
    "foldl (\<lambda>acc x. write_step (fst (snd x)) Background (Backfill_toSet (snd (snd x)) vs Map.empty) d acc)
         (errs @ [e], s1) mi = ((errs @ [e]) @ MSet_results new, s')"
    by blast
  have step: "write_step (fst (snd x)) Background (Backfill_toSet (snd (snd x)) vs Map.empty) d (errs, s)
              = (errs @ [e], s1)"
    using x w by (simp add: write_step_def)
  show ?case
    using new step
    by (intro exI[of _ "?ev @ new"]) (cases e; simp add: MSet_results_def)
qed

text \<open>Folding over recorded tiers is folding over their positions in the configured list.\<close>

lemma foldl_by_position:
  assumes "\<forall>x\<in>set xs. g x = ps ! h x"
  shows "foldl (\<lambda>acc x. F (g x) (k x) acc) a xs
         = foldl (\<lambda>acc y. F (ps ! fst y) (snd y) acc) a (map (\<lambda>x. (h x, k x)) xs)"
  using assms by (induction xs arbitrary: a) simp_all

lemma foldl_positions:
  assumes "\<forall>x\<in>set xs. snd x = ps ! fst x"
  shows "foldl (\<lambda>acc x. G (snd x) acc) a xs = foldl (\<lambda>acc i. G (ps ! i) acc) a (map fst xs)"
  using assms by (induction xs arbitrary: a) simp_all

lemma MGet_tiers_trace:
  "MGet_tiers ctx mv (enumerate n ps) tq fr mi s tr = (tq', fr', mi', s', tr') \<Longrightarrow>
   \<exists>new. tr' = tr @ new \<and> MSet_calls new = [] \<and> source_calls new = []
     \<and> map (\<lambda>x. (fst x, snd (snd x))) mi' = map (\<lambda>x. (fst x, snd (snd x))) mi @ tiers_missing new
     \<and> (tq' \<noteq> [] \<longrightarrow> tier_reads new = map fst (enumerate n ps))"
proof (induction ps arbitrary: n tq fr mi s tr)
  case Nil
  then show ?case by (simp add: trace_defs)
next
  case (Cons p ps)
  obtain found missing e s1 where g: "Provider_MGet p ctx tq mv s = ((found, missing, e), s1)"
    by (metis prod.exhaust)
  let ?ev = "CallMGet n ctx tq mv found missing e"
  show ?case
  proof (cases e)
    case (Some er)
    with Cons.prems g
    have "MGet_tiers ctx mv (enumerate (Suc n) ps) tq fr mi s1 (tr @ [?ev, Log er])
          = (tq', fr', mi', s', tr')" by simp
    from Cons.IH[OF this] obtain new where new:
      "tr' = (tr @ [?ev, Log er]) @ new" "MSet_calls new = []" "source_calls new = []"
      "map (\<lambda>x. (fst x, snd (snd x))) mi' = map (\<lambda>x. (fst x, snd (snd x))) mi @ tiers_missing new"
      "tq' \<noteq> [] \<longrightarrow> tier_reads new = map fst (enumerate (Suc n) ps)"
      by blast
    show ?thesis
      using new Some
      by (intro exI[of _ "?ev # Log er # new"]) (simp add: trace_defs)
  next
    case None
    show ?thesis
    proof (cases "missing = []")
      case True
      with None Cons.prems g
      have "tq' = []" "mi' = mi" "tr' = tr @ [?ev]" by auto
      then show ?thesis using True None
        by (intro exI[of _ "[?ev]"]) (simp add: trace_defs)
    next
      case False
      with None Cons.prems g
      have "MGet_tiers ctx mv (enumerate (Suc n) ps) missing (fr ++ found) (mi @ [(n, p, missing)]) s1
              (tr @ [?ev]) = (tq', fr', mi', s', tr')" by simp
      from Cons.IH[OF this] obtain new where new:
        "tr' = (tr @ [?ev]) @ new" "MSet_calls new = []" "source_calls new = []"
        "map (\<lambda>x. (fst x, snd (snd x))) mi'
           = map (\<lambda>x. (fst x, snd (snd x))) (mi @ [(n, p, missing)]) @ tiers_missing new"
        "tq' \<noteq> [] \<longrightarrow> tier_reads new = map fst (enumerate (Suc n) ps)"
        by blast
      show ?thesis
        using new None False
        by (intro exI[of _ "?ev # new"]) (simp add: trace_defs)
    qed
  qed
qed

lemma MGet_tiers_labels:
  "MGet_tiers ctx mv xs tq fr mi s tr = (tq', fr', mi', s', tr') \<Longrightarrow>
   (\<lambda>x. (fst x, fst (snd x))) ` set mi' \<subseteq> (\<lambda>x. (fst x, fst (snd x))) ` set mi \<union> set xs"
proof (induction xs arbitrary: tq fr mi s tr)
  case Nil
  then show ?case by simp
next
  case (Cons x xs)
  obtain i p where x: "x = (i, p)" by (cases x)
  obtain found missing e s1 where g: "Provider_MGet p ctx tq mv s = ((found, missing, e), s1)"
    by (metis prod.exhaust)
  let ?ev = "CallMGet i ctx tq mv found missing e"
  show ?case
  proof (cases e)
    case (Some er)
    with Cons.prems g x
    have "MGet_tiers ctx mv xs tq fr mi s1 (tr @ [?ev, Log er]) = (tq', fr', mi', s', tr')"
      by simp
    from Cons.IH[OF this] show ?thesis by auto
  next
    case None
    show ?thesis
    proof (cases "missing = []")
      case True
      with None Cons.prems g x have "mi' = mi" by auto
      then show ?thesis by auto
    next
      case False
      with None Cons.prems g x
      have "MGet_tiers ctx mv xs missing (fr ++ found) (mi @ [(i, p, missing)]) s1 (tr @ [?ev])
            = (tq', fr', mi', s', tr')" by simp
      from Cons.IH[OF this] show ?thesis using x by auto
    qed
  qed
qed

lemma Backfill_loop_trace:
  "Backfill_loop mi m d s tr = (s', tr') \<Longrightarrow>
   \<exists>new. tr' = tr @ new
     \<and> MSet_calls new = map (\<lambda>x. (fst x, Background, Backfill_toSet (snd (snd x)) m Map.empty, d)) mi"
proof (induction mi arbitrary: s tr)
  case Nil
  then show ?case by (simp add: trace_defs)
next
  case (Cons x mi)
  obtain i p ks where x: "x = (i, p, ks)" by (cases x)
  let ?toSet = "Backfill_toSet ks m Map.empty"
  obtain e s1 where w: "Provider_MSet p Background ?toSet d s = (e, s1)" by (metis prod.exhaust)
  let ?ev = "CallMSet i Background ?toSet d e # (case e of Some e \<Rightarrow> [Log e] | None \<Rightarrow> [])"
  from Cons.prems x w
  have "Backfill_loop mi m d s1 (tr @ ?ev) = (s', tr')" by (simp add: Let_def)
  from Cons.IH[OF this] obtain new where new:
    "tr' = (tr @ ?ev) @ new"
    "MSet_calls new = map (\<lambda>x. (fst x, Background, Backfill_toSet (snd (snd x)) m Map.empty, d)) mi"
    by blast
  show ?case
    using new x
    by (intro exI[of _ "?ev @ new"]) (cases e; simp add: trace_defs)
qed

lemma Backfill_toSet_other:
  "x \<notin> Key ` (set ks \<inter> dom m) \<Longrightarrow> Backfill_toSet ks m acc x = acc x"
proof (induction ks arbitrary: acc)
  case Nil
  then show ?case by simp
next
  case (Cons k ks)
  from Cons.prems have rest: "x \<notin> Key ` (set ks \<inter> dom m)" by auto
  show ?case
  proof (cases "m k")
    case None
    then show ?thesis using Cons.IH[OF rest] by simp
  next
    case (Some v)
    then have "k \<in> dom m" by auto
    with Cons.prems have "Key k \<noteq> x" by auto
    then have last: "(acc(Key k \<mapsto> v)) x = acc x" by simp
    have "Backfill_toSet (k # ks) m acc x = Backfill_toSet ks m (acc(Key k \<mapsto> v)) x"
      using Some by simp
    also have "\<dots> = (acc(Key k \<mapsto> v)) x" by (rule Cons.IH[OF rest])
    finally show ?thesis using last by simp
  qed
qed

lemma Backfill_toSet_dom:
  "dom (Backfill_toSet ks m acc) = dom acc \<union> Key ` (set ks \<inter> dom m)"
  by (induction ks arbitrary: acc) (auto split: option.splits)

lemma Backfill_toSet_value:
  "x \<in> Key ` (set ks \<inter> dom m) \<Longrightarrow>
   \<exists>k\<in>set ks \<inter> dom m. Key k = x \<and> Backfill_toSet ks m acc x = m k"
proof (induction ks arbitrary: acc)
  case Nil
  then show ?case by simp
next
  case (Cons k ks)
  show ?case
  proof (cases "x \<in> Key ` (set ks \<inter> dom m)")
    case True
    have "\<exists>k'\<in>set ks \<inter> dom m. Key k' = x \<and> Backfill_toSet (k # ks) m acc x = m k'"
    proof (cases "m k")
      case None
      then show ?thesis by simp (rule Cons.IH[OF True])
    next
      case (Some v)
      then show ?thesis by simp (rule Cons.IH[OF True])
    qed
    then show ?thesis by auto
  next
    case False
    with Cons.prems have kx: "Key k = x" "k \<in> dom m" by auto
    then obtain v where v: "m k = Some v" by auto
    have "Backfill_toSet (k # ks) m acc x = Backfill_toSet ks m (acc(Key k \<mapsto> v)) x"
      using v by simp
    also have "\<dots> = (acc(Key k \<mapsto> v)) x" by (rule Backfill_toSet_other[OF False])
    also have "\<dots> = m k" using kx v by simp
    finally show ?thesis using kx by auto
  qed
qed

lemma Backfill_toSet_value_inj:
  assumes "inj_on Key (set ks \<inter> dom m)" "k \<in> set ks" "k \<in> dom m"
  shows "Backfill_toSet ks m acc (Key k) = m k"
proof -
  from assms have "Key k \<in> Key ` (set ks \<inter> dom m)" by auto
  from Backfill_toSet_value[OF this, of acc] obtain k' where
    k': "k' \<in> set ks \<inter> dom m" "Key k' = Key k" "Backfill_toSet ks m acc (Key k) = m k'" by blast
  with assms have "k' = k" by (auto dest: inj_onD)
  with k' show ?thesis by simp
qed


section \<open>The orchestrator's claims\<close>


lemma Cache_Get_resolved:
  assumes tiers: "Get_tiers ctx key (modelVersion (builder c)) (enumerate 0 (providers (builder c))) [] s []
                  = (fv, mi, s1, tr1)"
    and resolved: "(fv \<noteq> None \<and> v = fv \<and> s2 = s1) \<or> (fv = None \<and> fn = Some f \<and> f ctx key s1 = ((v, None), s2))"
  shows "\<exists>s' tr. Cache_Get c ctx key fn s = ((v, None), s', tr)
        \<and> tiers_absent tr = map fst mi
        \<and> (\<forall>ip\<in>set mi. fst ip < length (providers (builder c)) \<and> providers (builder c) ! fst ip = snd ip)
        \<and> MSet_calls tr = map (\<lambda>i. (i, ctx, [Key key \<mapsto> v], ttl (builder c))) (tiers_absent tr)
        \<and> foldl (\<lambda>acc i. write_step (providers (builder c) ! i) ctx [Key key \<mapsto> v] (ttl (builder c)) acc)
             ([], s2) (tiers_absent tr) = (MSet_results tr, s')"
proof -
  define tr2 where "tr2 = (if fv = None then tr1 @ [CallSingleFn ctx key v None] else tr1)"
  from Get_tiers_trace[OF tiers]
  have t1: "MSet_calls tr1 = []" "map fst mi = tiers_absent tr1" by auto
  have t2: "MSet_calls tr2 = []" "tiers_absent tr2 = map fst mi"
    using t1 by (auto simp: tr2_def trace_defs)
  obtain s3 tr3 where wb: "Get_writeback ctx [Key key \<mapsto> v] (ttl (builder c)) mi s2 tr2 = (s3, tr3)"
    by (metis prod.exhaust)
  from Get_writeback_trace[OF wb] obtain new where new:
    "tr3 = tr2 @ new" "MSet_calls new = map (\<lambda>ip. (fst ip, ctx, [Key key \<mapsto> v], ttl (builder c))) mi"
    "tiers_absent new = []" by blast
  from Get_writeback_state[OF wb, of "[]"] obtain new' where new':
    "tr3 = tr2 @ new'"
    "foldl (\<lambda>acc ip. write_step (snd ip) ctx [Key key \<mapsto> v] (ttl (builder c)) acc) ([], s2) mi
     = ([] @ MSet_results new', s3)" by blast
  have run: "Cache_Get c ctx key fn s = ((v, None), s3, tr3)"
  proof (cases "mi = []")
    case True
    with wb have "s3 = s2" "tr3 = tr2" by simp_all
    then show ?thesis using tiers resolved True by (auto simp: Cache_Get_def tr2_def)
  next
    case False
    then show ?thesis using tiers resolved wb by (auto simp: Cache_Get_def tr2_def)
  qed
  have absent: "tiers_absent tr3 = map fst mi"
    using new t2 by (simp add: tiers_absent_append)
  have calls: "MSet_calls tr3 = map (\<lambda>i. (i, ctx, [Key key \<mapsto> v], ttl (builder c))) (tiers_absent tr3)"
    using new t2 absent by (simp add: MSet_calls_append comp_def)
  have labels: "\<forall>ip\<in>set mi. fst ip < length (providers (builder c)) \<and> providers (builder c) ! fst ip = snd ip"
  proof
    fix ip assume "ip \<in> set mi"
    with Get_tiers_labels[OF tiers] have "(fst ip, snd ip) \<in> set (enumerate 0 (providers (builder c)))"
      by auto
    from enumerate_labels[OF this] show "fst ip < length (providers (builder c)) \<and> providers (builder c) ! fst ip = snd ip"
      by simp
  qed
  have res: "MSet_results tr3 = MSet_results new'"
    using new'(1) MSet_results_none[OF t2(1)] by (simp add: MSet_results_append)
  have pos: "\<forall>x\<in>set mi. snd x = providers (builder c) ! fst x" using labels by simp
  have "foldl (\<lambda>acc ip. write_step (snd ip) ctx [Key key \<mapsto> v] (ttl (builder c)) acc) ([], s2) mi
        = foldl (\<lambda>acc i. write_step (providers (builder c) ! i) ctx [Key key \<mapsto> v] (ttl (builder c)) acc)
            ([], s2) (map fst mi)"
    using foldl_positions[OF pos,
        where G = "\<lambda>p acc. write_step p ctx [Key key \<mapsto> v] (ttl (builder c)) acc" and a = "([], s2)"]
    by simp
  with new'(2) res absent
  have writes: "foldl (\<lambda>acc i. write_step (providers (builder c) ! i) ctx [Key key \<mapsto> v] (ttl (builder c)) acc)
             ([], s2) (tiers_absent tr3) = (MSet_results tr3, s3)" by simp
  from run absent calls labels writes show ?thesis by blast
qed

text \<open>
  C4.  When the tier loop of a single-key Get ends with a value \<open>v\<close>, from a winning
  tier or from the origin, Get returns \<open>v\<close> with a nil error, and the MSet calls of
  that same call are exactly one per tier that returned absent (a nil value and a
  nil error), in order, each with the one-entry map from the key's cacheKey to
  \<open>v\<close>, the default TTL and the caller's context.  The writes are made: the
  state the call leaves and the return values it records are those of applying
  the MSet of these tiers in turn, from the state the lookup left.  Nothing is
  assumed of what the writes return: a failing write changes neither the value
  nor the nil error.
\<close>

theorem Get_writes_back:
  assumes "Get_tiers ctx key (modelVersion (builder c)) (enumerate 0 (providers (builder c))) [] s []
           = (fv, mi, s1, tr1)"
    and "(fv \<noteq> None \<and> v = fv \<and> s2 = s1) \<or> (fv = None \<and> fn = Some f \<and> f ctx key s1 = ((v, None), s2))"
  shows "\<exists>s' tr. Cache_Get c ctx key fn s = ((v, None), s', tr)
        \<and> tiers_absent tr = map fst mi
        \<and> (\<forall>ip\<in>set mi. fst ip < length (providers (builder c)) \<and> providers (builder c) ! fst ip = snd ip)
        \<and> MSet_calls tr = map (\<lambda>i. (i, ctx, [Key key \<mapsto> v], ttl (builder c))) (tiers_absent tr)
        \<and> foldl (\<lambda>acc i. write_step (providers (builder c) ! i) ctx [Key key \<mapsto> v] (ttl (builder c)) acc)
             ([], s2) (tiers_absent tr) = (MSet_results tr, s')"
  using assms by (rule Cache_Get_resolved)

text \<open>
  C10.  If, in the call at hand, the Get of every configured tier returns absent
  (the tier loop's trace has a nil value and a nil error for every tier) and the
  origin, called in the state the loop left, returns a nil value with a nil error,
  then Get returns a nil value and a nil error, and the MSet of every tier is
  invoked, in order, with the one-entry map that binds the key's cacheKey to nil:
  the state the call leaves and the return values it records are those of
  applying the MSet of all tiers in turn.
\<close>

theorem Get_nil_from_source_written_back:
  assumes tiers: "Get_tiers ctx key (modelVersion (builder c)) (enumerate 0 (providers (builder c))) [] s []
                  = (fv, mi, s1, tr1)"
    and absent: "tiers_absent tr1 = [0..<length (providers (builder c))]"
    and nil: "f ctx key s1 = ((None, None), s2)"
  shows "\<exists>s' tr. Cache_Get c ctx key (Some f) s = ((None, None), s', tr)
        \<and> tiers_absent tr = [0..<length (providers (builder c))]
        \<and> MSet_calls tr = map (\<lambda>i. (i, ctx, [Key key \<mapsto> None], ttl (builder c)))
                              [0..<length (providers (builder c))]
        \<and> foldl (\<lambda>acc i. write_step (providers (builder c) ! i) ctx [Key key \<mapsto> None] (ttl (builder c)) acc)
             ([], s2) [0..<length (providers (builder c))] = (MSet_results tr, s')"
proof -
  from Get_tiers_trace[OF tiers] have mi: "map fst mi = tiers_absent tr1" by auto
  have fv: "fv = None"
  proof (rule ccontr)
    assume "fv \<noteq> None"
    from Get_tiers_win[OF tiers this]
    have "length mi < length (providers (builder c))" by simp
    moreover have "length mi = length (providers (builder c))"
      using mi absent by (metis length_map length_upt minus_nat.diff_0)
    ultimately show False by simp
  qed
  from Cache_Get_resolved[OF tiers, of None s2 "Some f" f] fv nil
  obtain s' tr where r: "Cache_Get c ctx key (Some f) s = ((None, None), s', tr)"
    "tiers_absent tr = map fst mi"
    "MSet_calls tr = map (\<lambda>i. (i, ctx, [Key key \<mapsto> None], ttl (builder c))) (tiers_absent tr)"
    "foldl (\<lambda>acc i. write_step (providers (builder c) ! i) ctx [Key key \<mapsto> None] (ttl (builder c)) acc)
             ([], s2) (tiers_absent tr) = (MSet_results tr, s')"
    by auto
  from r mi absent show ?thesis by simp
qed

text \<open>
  C5.  When the first configured tier returns a value with a nil error, Get returns
  that value and its trace is the one call of the first tier: no later tier is
  queried and the origin is not invoked.  When the MGet of the first tier returns a
  nil error and an empty missing list, MGet returns what that tier found, starts
  no backfill, and its trace is the one call of the first tier.
\<close>

theorem first_tier_hit_stops:
  "(providers (builder c) = p # rest \<and> Provider_Get p ctx key (modelVersion (builder c)) s = ((Some x, None), s1)
      \<longrightarrow> (\<exists>tr. Cache_Get c ctx key fn s = ((Some x, None), s1, tr)
                \<and> tr = [CallGet 0 ctx key (modelVersion (builder c)) (Some x) None]
                \<and> tier_reads tr = [0] \<and> source_calls tr = [] \<and> MSet_calls tr = []))
   \<and> (providers (builder c) = p # rest \<and> Provider_MGet p ctx keys (modelVersion (builder c)) s = ((found, [], None), s1)
      \<longrightarrow> (\<exists>tr. Cache_MGet c ctx keys gn s = ((Some found, None), None, s1, tr)
                \<and> tr = [CallMGet 0 ctx keys (modelVersion (builder c)) found [] None]
                \<and> tier_reads tr = [0] \<and> source_calls tr = [] \<and> MSet_calls tr = []))"
  by (simp add: Cache_Get_def Cache_MGet_def trace_defs)

lemma Cache_Get_no_source:
  assumes "fst (Get_tiers ctx key (modelVersion (builder c)) (enumerate 0 (providers (builder c))) [] s []) = None"
  shows "\<exists>s' tr. Cache_Get c ctx key None s
                  = ((None, Some (New ''get single from source is not defined'')), s', tr)
        \<and> tier_reads tr = [0..<length (providers (builder c))]
        \<and> MSet_calls tr = [] \<and> source_calls tr = []"
proof -
  obtain fv mi s1 tr1 where tiers:
    "Get_tiers ctx key (modelVersion (builder c)) (enumerate 0 (providers (builder c))) [] s [] = (fv, mi, s1, tr1)"
    by (metis prod.exhaust)
  with assms have fv: "fv = None" by simp
  from Get_tiers_trace[OF tiers] fv
  have t: "MSet_calls tr1 = []" "source_calls tr1 = []"
    "tier_reads tr1 = map fst (enumerate 0 (providers (builder c)))" by auto
  have "Cache_Get c ctx key None s = ((None, Some (New ''get single from source is not defined'')), s1, tr1)"
    using tiers fv by (simp add: Cache_Get_def)
  with t show ?thesis by simp
qed

lemma Cache_MGet_no_source:
  assumes "fst (MGet_tiers ctx (modelVersion (builder c)) (enumerate 0 (providers (builder c))) keys Map.empty [] s []) \<noteq> []"
  shows "\<exists>s' tr. Cache_MGet c ctx keys None s
                  = ((None, Some (New ''get single from source is not defined'')), None, s', tr)
        \<and> tier_reads tr = [0..<length (providers (builder c))]
        \<and> MSet_calls tr = [] \<and> source_calls tr = []"
proof -
  obtain tq fr mi s1 tr1 where tiers:
    "MGet_tiers ctx (modelVersion (builder c)) (enumerate 0 (providers (builder c))) keys Map.empty [] s []
     = (tq, fr, mi, s1, tr1)"
    by (metis prod.exhaust)
  with assms have tq: "tq \<noteq> []" by simp
  from MGet_tiers_trace[OF tiers] tq
  have t: "MSet_calls tr1 = []" "source_calls tr1 = []"
    "tier_reads tr1 = map fst (enumerate 0 (providers (builder c)))" by auto
  have "Cache_MGet c ctx keys None s
        = ((None, Some (New ''get single from source is not defined'')), None, s1, tr1)"
    using tiers tq by (simp add: Cache_MGet_def)
  with t show ?thesis by simp
qed

text \<open>
  C1, as the code has it.  When no configured tier resolves the request and the
  origin function is nil, Get and MGet return the configuration error with a nil
  value (a nil map), after the tier loop: the Get (MGet) of every configured tier
  has been invoked once, in order; no tier's MSet is invoked, the origin is not
  called and MGet starts no backfill.
\<close>

theorem missing_source_fails_after_tier_loop:
  "(fst (Get_tiers ctx key (modelVersion (builder c)) (enumerate 0 (providers (builder c))) [] s []) = None
      \<longrightarrow> (\<exists>s' tr. Cache_Get c ctx key None s
                      = ((None, Some (New ''get single from source is not defined'')), s', tr)
            \<and> tier_reads tr = [0..<length (providers (builder c))]
            \<and> MSet_calls tr = [] \<and> source_calls tr = []))
   \<and> (fst (MGet_tiers ctx (modelVersion (builder c)) (enumerate 0 (providers (builder c))) keys Map.empty [] s []) \<noteq> []
      \<longrightarrow> (\<exists>s' tr. Cache_MGet c ctx keys None s
                      = ((None, Some (New ''get single from source is not defined'')), None, s', tr)
            \<and> tier_reads tr = [0..<length (providers (builder c))]
            \<and> MSet_calls tr = [] \<and> source_calls tr = []))"
  using Cache_Get_no_source[of ctx key c s] Cache_MGet_no_source[of ctx c keys s] by blast

lemma Cache_MGet_cases:
  assumes "Cache_MGet c ctx keys fn s = (res, g, s', tr)"
    and "MGet_tiers ctx (modelVersion (builder c)) (enumerate 0 (providers (builder c))) keys Map.empty [] s []
         = (tq, fr, mi, s1, tr1)"
  shows "(g = None \<and> (tr = tr1 \<or> (\<exists>nv e. tr = tr1 @ [CallFn ctx tq nv e])))
       \<or> (\<exists>nv. g = Some \<lparr>bf_missingIn = mi, bf_valuesFromSource = nv, bf_ttl = ttl (builder c)\<rparr>
             \<and> mi \<noteq> [] \<and> nv \<noteq> Map.empty \<and> tr = tr1 @ [CallFn ctx tq nv None])"
  using assms
  by (auto simp: Cache_MGet_def split: if_splits option.splits prod.splits)

lemma Cache_MGet_source_error:
  assumes "Cache_MGet c ctx keys fn s = (res, g, s', tr)"
    and "MGet_tiers ctx (modelVersion (builder c)) (enumerate 0 (providers (builder c))) keys Map.empty [] s []
         = (tq, fr, mi, s1, tr1)"
    and "CallFn ctx' tq' m (Some e) \<in> set tr"
    and "source_calls tr1 = []"
  shows "res = (None, Some (Wrap e ''can not get from source'')) \<and> g = None
       \<and> tr = tr1 @ [CallFn ctx tq m (Some e)] \<and> tq \<noteq> []"
proof -
  have notin: "CallFn ctx' tq' m (Some e) \<notin> set tr1"
  proof
    assume "CallFn ctx' tq' m (Some e) \<in> set tr1"
    then have "CallFn ctx' tq' m (Some e) \<in> set (source_calls tr1)"
      by (simp add: source_calls_def)
    with assms(4) show False by simp
  qed
  from assms(1,2,3) notin show ?thesis
    by (auto simp: Cache_MGet_def split: if_splits option.splits prod.splits)
qed

text \<open>
  C2.  If the trace of an MGet call holds a call of the origin function that
  returned an error, the call returns a nil map and that error wrapped, whatever
  the tiers had resolved: the origin call is the last thing the call does, on a
  non-empty list of keys, no tier has been written and no backfill is started.
\<close>

theorem MGet_source_error_fails_call:
  assumes "Cache_MGet c ctx keys fn s = (res, g, s', tr)"
    and "CallFn ctx' tq m (Some e) \<in> set tr"
  shows "res = (None, Some (Wrap e ''can not get from source'')) \<and> g = None
       \<and> MSet_calls tr = [] \<and> tq \<noteq> []
       \<and> (\<exists>tr1. tr = tr1 @ [CallFn ctx tq m (Some e)] \<and> source_calls tr1 = [])"
proof -
  obtain tq1 fr mi s1 tr1 where tiers:
    "MGet_tiers ctx (modelVersion (builder c)) (enumerate 0 (providers (builder c))) keys Map.empty [] s []
     = (tq1, fr, mi, s1, tr1)"
    by (metis prod.exhaust)
  from MGet_tiers_trace[OF tiers]
  have t1: "MSet_calls tr1 = []" "source_calls tr1 = []" by auto
  from Cache_MGet_source_error[OF assms(1) tiers assms(2) t1(2)]
  have r: "res = (None, Some (Wrap e ''can not get from source''))" "g = None"
    "tr = tr1 @ [CallFn ctx tq1 m (Some e)]" "tq1 \<noteq> []" by simp_all
  from r(3) assms(2) t1(2) have same: "tq1 = tq"
  proof -
    have "CallFn ctx' tq m (Some e) \<notin> set tr1"
    proof
      assume "CallFn ctx' tq m (Some e) \<in> set tr1"
      then have "CallFn ctx' tq m (Some e) \<in> set (source_calls tr1)" by (simp add: source_calls_def)
      with t1(2) show False by simp
    qed
    with r(3) assms(2) show ?thesis by simp
  qed
  have "MSet_calls tr = []" using r(3) t1(1) by (simp add: MSet_calls_append) (simp add: MSet_calls_def)
  with r same t1(2) show ?thesis by blast
qed

lemma Backfill_run_calls:
  "MSet_calls (snd (Backfill_run \<lparr>bf_missingIn = mi, bf_valuesFromSource = nv, bf_ttl = d\<rparr> s0))
   = map (\<lambda>x. (fst x, Background, Backfill_toSet (snd x) nv Map.empty, d))
       (map (\<lambda>x. (fst x, snd (snd x))) mi)"
proof -
  obtain s' tr' where r: "Backfill_loop mi nv d s0 [] = (s', tr')" by (metis prod.exhaust)
  from Backfill_loop_trace[OF r] show ?thesis using r by (simp add: Backfill_run_def comp_def)
qed

lemma Backfill_run_state:
  assumes "\<forall>x\<in>set mi. fst (snd x) = ps ! fst x"
  shows "foldl (\<lambda>acc y. write_step (ps ! fst y) Background (Backfill_toSet (snd y) nv Map.empty) d acc)
           ([], s0) (map (\<lambda>x. (fst x, snd (snd x))) mi)
         = (MSet_results (snd (Backfill_run \<lparr>bf_missingIn = mi, bf_valuesFromSource = nv, bf_ttl = d\<rparr> s0)),
            fst (Backfill_run \<lparr>bf_missingIn = mi, bf_valuesFromSource = nv, bf_ttl = d\<rparr> s0))"
proof -
  obtain s' tr' where r: "Backfill_loop mi nv d s0 [] = (s', tr')" by (metis prod.exhaust)
  from Backfill_loop_state[OF r, of "[]"]
  have st: "foldl (\<lambda>acc x. write_step (fst (snd x)) Background (Backfill_toSet (snd (snd x)) nv Map.empty) d acc)
              ([], s0) mi = (MSet_results tr', s')" by auto
  have "foldl (\<lambda>acc x. write_step (fst (snd x)) Background (Backfill_toSet (snd (snd x)) nv Map.empty) d acc)
          ([], s0) mi
        = foldl (\<lambda>acc y. write_step (ps ! fst y) Background (Backfill_toSet (snd y) nv Map.empty) d acc)
            ([], s0) (map (\<lambda>x. (fst x, snd (snd x))) mi)"
    using foldl_by_position[OF assms,
        where F = "\<lambda>p ks acc. write_step p Background (Backfill_toSet ks nv Map.empty) d acc"
          and k = "\<lambda>x. snd (snd x)" and a = "([], s0)"]
    by simp
  with st r show ?thesis by (simp add: Backfill_run_def)
qed

text \<open>
  C3.  The synchronous part of MGet writes to no tier.  A backfill is started only
  if the origin was invoked, returned no error and a non-empty map, and some tier
  recorded a miss; with no origin call there is none, so a key that an early tier
  missed and a later tier resolved is not written anywhere.  When the backfill
  runs, in whatever state, its MSet calls are exactly one per tier that recorded a
  miss, in order, each under \<open>context.Background()\<close> and with the default TTL; the
  map written to a tier has as its keys exactly the cacheKeys of the tier's missed
  keys that are in the origin's result, each bound to the origin's value of such a
  key (of that very key when the cacheKeys are distinct).  The writes are made:
  the state the backfill leaves and the return values it records are those of
  applying the MSet of these tiers in turn to these maps, from the state it
  started in.
\<close>

theorem MGet_backfill_after_source:
  assumes "Cache_MGet c ctx keys fn s = (res, g, s', tr)"
  shows "MSet_calls tr = []
       \<and> (source_calls tr = [] \<longrightarrow> g = None)
       \<and> (\<forall>task. g = Some task \<longrightarrow>
            (\<exists>tq m. source_calls tr = [CallFn ctx tq m None] \<and> m \<noteq> Map.empty \<and> bf_valuesFromSource task = m)
            \<and> tiers_missing tr \<noteq> []
            \<and> map (\<lambda>x. (fst x, snd (snd x))) (bf_missingIn task) = tiers_missing tr
            \<and> (\<forall>x\<in>set (bf_missingIn task). fst x < length (providers (builder c))
                   \<and> providers (builder c) ! fst x = fst (snd x))
            \<and> (\<forall>s0. MSet_calls (snd (Backfill_run task s0))
                 = map (\<lambda>x. (fst x, Background,
                              Backfill_toSet (snd x) (bf_valuesFromSource task) Map.empty, ttl (builder c)))
                     (tiers_missing tr))
            \<and> (\<forall>s0. foldl (\<lambda>acc y. write_step (providers (builder c) ! fst y) Background
                                 (Backfill_toSet (snd y) (bf_valuesFromSource task) Map.empty)
                                 (ttl (builder c)) acc)
                       ([], s0) (tiers_missing tr)
                 = (MSet_results (snd (Backfill_run task s0)), fst (Backfill_run task s0))))
       \<and> dom (Backfill_toSet ks m Map.empty) = Key ` (set ks \<inter> dom m)
       \<and> (\<forall>k\<in>set ks \<inter> dom m. \<exists>k'\<in>set ks \<inter> dom m. Key k' = Key k \<and> Backfill_toSet ks m Map.empty (Key k) = m k')
       \<and> (inj_on Key (set ks \<inter> dom m) \<longrightarrow> (\<forall>k\<in>set ks \<inter> dom m. Backfill_toSet ks m Map.empty (Key k) = m k))"
proof -
  obtain tq fr mi s1 tr1 where tiers:
    "MGet_tiers ctx (modelVersion (builder c)) (enumerate 0 (providers (builder c))) keys Map.empty [] s []
     = (tq, fr, mi, s1, tr1)"
    by (metis prod.exhaust)
  from MGet_tiers_trace[OF tiers]
  have t1: "MSet_calls tr1 = []" "source_calls tr1 = []"
    "map (\<lambda>x. (fst x, snd (snd x))) mi = tiers_missing tr1" by auto
  have labels: "\<forall>x\<in>set mi. fst x < length (providers (builder c)) \<and> providers (builder c) ! fst x = fst (snd x)"
  proof
    fix x assume "x \<in> set mi"
    with MGet_tiers_labels[OF tiers]
    have "(fst x, fst (snd x)) \<in> set (enumerate 0 (providers (builder c)))" by auto
    from enumerate_labels[OF this]
    show "fst x < length (providers (builder c)) \<and> providers (builder c) ! fst x = fst (snd x)" by simp
  qed
  from Cache_MGet_cases[OF assms tiers]
  have a: "MSet_calls tr = []" using t1 by (auto simp: trace_defs)
  from Cache_MGet_cases[OF assms tiers]
  have b: "source_calls tr = [] \<longrightarrow> g = None" by (auto simp: trace_defs)
  have c: "\<forall>task. g = Some task \<longrightarrow>
            (\<exists>tq m. source_calls tr = [CallFn ctx tq m None] \<and> m \<noteq> Map.empty \<and> bf_valuesFromSource task = m)
            \<and> tiers_missing tr \<noteq> []
            \<and> map (\<lambda>x. (fst x, snd (snd x))) (bf_missingIn task) = tiers_missing tr
            \<and> (\<forall>x\<in>set (bf_missingIn task). fst x < length (providers (builder c))
                   \<and> providers (builder c) ! fst x = fst (snd x))
            \<and> (\<forall>s0. MSet_calls (snd (Backfill_run task s0))
                 = map (\<lambda>x. (fst x, Background,
                              Backfill_toSet (snd x) (bf_valuesFromSource task) Map.empty, ttl (builder c)))
                     (tiers_missing tr))
            \<and> (\<forall>s0. foldl (\<lambda>acc y. write_step (providers (builder c) ! fst y) Background
                                 (Backfill_toSet (snd y) (bf_valuesFromSource task) Map.empty)
                                 (ttl (builder c)) acc)
                       ([], s0) (tiers_missing tr)
                 = (MSet_results (snd (Backfill_run task s0)), fst (Backfill_run task s0)))"
  proof (intro allI impI)
    fix task assume g: "g = Some task"
    with Cache_MGet_cases[OF assms tiers] obtain nv where nv:
      "task = \<lparr>bf_missingIn = mi, bf_valuesFromSource = nv, bf_ttl = ttl (builder c)\<rparr>"
      "mi \<noteq> []" "nv \<noteq> Map.empty" "tr = tr1 @ [CallFn ctx tq nv None]" by auto
    have src: "source_calls tr = [CallFn ctx tq nv None]"
      using nv(4) t1(2) by (simp add: source_calls_append) (simp add: source_calls_def)
    have miss: "tiers_missing tr = map (\<lambda>x. (fst x, snd (snd x))) mi"
      using nv(4) t1(3) by (simp add: tiers_missing_append) (simp add: tiers_missing_def)
    have ne: "tiers_missing tr \<noteq> []" using miss nv(2) by simp
    have run: "\<forall>s0. MSet_calls (snd (Backfill_run task s0))
                 = map (\<lambda>x. (fst x, Background,
                              Backfill_toSet (snd x) (bf_valuesFromSource task) Map.empty, ttl (builder c)))
                     (tiers_missing tr)"
      unfolding miss nv(1) by (simp only: Backfill_run_calls) simp
    have pos: "\<forall>x\<in>set mi. fst (snd x) = providers (builder c) ! fst x" using labels by simp
    have state: "\<forall>s0. foldl (\<lambda>acc y. write_step (providers (builder c) ! fst y) Background
                                 (Backfill_toSet (snd y) (bf_valuesFromSource task) Map.empty)
                                 (ttl (builder c)) acc)
                       ([], s0) (tiers_missing tr)
                 = (MSet_results (snd (Backfill_run task s0)), fst (Backfill_run task s0))"
      unfolding miss nv(1) using Backfill_run_state[OF pos] by simp
    show "(\<exists>tq m. source_calls tr = [CallFn ctx tq m None] \<and> m \<noteq> Map.empty \<and> bf_valuesFromSource task = m)
            \<and> tiers_missing tr \<noteq> []
            \<and> map (\<lambda>x. (fst x, snd (snd x))) (bf_missingIn task) = tiers_missing tr
            \<and> (\<forall>x\<in>set (bf_missingIn task). fst x < length (providers (builder c))
                   \<and> providers (builder c) ! fst x = fst (snd x))
            \<and> (\<forall>s0. MSet_calls (snd (Backfill_run task s0))
                 = map (\<lambda>x. (fst x, Background,
                              Backfill_toSet (snd x) (bf_valuesFromSource task) Map.empty, ttl (builder c)))
                     (tiers_missing tr))
            \<and> (\<forall>s0. foldl (\<lambda>acc y. write_step (providers (builder c) ! fst y) Background
                                 (Backfill_toSet (snd y) (bf_valuesFromSource task) Map.empty)
                                 (ttl (builder c)) acc)
                       ([], s0) (tiers_missing tr)
                 = (MSet_results (snd (Backfill_run task s0)), fst (Backfill_run task s0)))"
      using src nv(3) ne miss labels run state by (simp add: nv(1))
  qed
  have d: "dom (Backfill_toSet ks m Map.empty) = Key ` (set ks \<inter> dom m)"
    by (simp add: Backfill_toSet_dom)
  have e: "\<forall>k\<in>set ks \<inter> dom m. \<exists>k'\<in>set ks \<inter> dom m. Key k' = Key k \<and> Backfill_toSet ks m Map.empty (Key k) = m k'"
  proof
    fix k assume "k \<in> set ks \<inter> dom m"
    then have "Key k \<in> Key ` (set ks \<inter> dom m)" by simp
    from Backfill_toSet_value[OF this] show "\<exists>k'\<in>set ks \<inter> dom m. Key k' = Key k \<and> Backfill_toSet ks m Map.empty (Key k) = m k'" .
  qed
  have f: "inj_on Key (set ks \<inter> dom m) \<longrightarrow> (\<forall>k\<in>set ks \<inter> dom m. Backfill_toSet ks m Map.empty (Key k) = m k)"
    by (auto intro: Backfill_toSet_value_inj)
  from a b c d e f show ?thesis by blast
qed


section \<open>The claims at concrete inputs\<close>

lemmas example_defs = Build_def NewCacheBuilder_def tier_empty_def tier_readonly_def tier_with_def
  source_down_def source_nil_def source_single_def source_all_def key1_def key2_def



text \<open>
  C1 as stated fails: one tier that holds nothing, no origin function.  Get returns
  the configuration error, and the tier's Get has been invoked.
\<close>

theorem missing_source_counterexample:
  "fst (Cache_Get (Build (NewCacheBuilder 1 [tier_empty])) TODO key1 None 0)
     = (None, Some (New ''get single from source is not defined''))
   \<and> tier_reads (snd (snd (Cache_Get (Build (NewCacheBuilder 1 [tier_empty])) TODO key1 None 0))) = [0]"
  by (simp add: Cache_Get_def example_defs trace_defs)

theorem missing_source_fails_after_tier_loop_witness:
  "fst (Get_tiers TODO key1 1 (enumerate 0 [tier_empty, tier_readonly]) [] 0 []) = None
   \<and> Cache_Get (Build (NewCacheBuilder 1 [tier_empty, tier_readonly])) TODO key1 None 0
     = ((None, Some (New ''get single from source is not defined'')), 0,
        [CallGet 0 TODO key1 1 None None, CallGet 1 TODO key1 1 None None])
   \<and> fst (MGet_tiers TODO 1 (enumerate 0 [tier_empty, tier_readonly]) [key1, key2] Map.empty [] 0 []) \<noteq> []
   \<and> Cache_MGet (Build (NewCacheBuilder 1 [tier_empty, tier_readonly])) TODO [key1, key2] None 0
     = ((None, Some (New ''get single from source is not defined'')), None, 0,
        [CallMGet 0 TODO [key1, key2] 1 Map.empty [key1, key2] None,
         CallMGet 1 TODO [key1, key2] 1 Map.empty [key1, key2] None])"
proof -
  have h1: "fst (Get_tiers TODO key1 1 (enumerate 0 [tier_empty, tier_readonly]) [] 0 []) = None"
    by (simp add: example_defs)
  have h2: "fst (MGet_tiers TODO 1 (enumerate 0 [tier_empty, tier_readonly]) [key1, key2] Map.empty [] 0 []) \<noteq> []"
    by (simp add: example_defs)
  from missing_source_fails_after_tier_loop
         [where c = "Build (NewCacheBuilder 1 [tier_empty, tier_readonly])" and ctx = TODO
            and key = key1 and keys = "[key1, key2]" and s = 0]
  show ?thesis
    using h1 h2 by (simp add: Cache_Get_def Cache_MGet_def example_defs)
qed

text \<open>The first tier resolves \<open>key1\<close>; the origin, asked for \<open>key2\<close>, fails.\<close>

theorem MGet_source_error_fails_call_witness:
  "Cache_MGet (Build (NewCacheBuilder 1 [tier_with key1 7])) TODO [key1, key2] (Some source_down) 0
     = ((None, Some (Wrap (New ''db down'') ''can not get from source'')), None, 0,
        [CallMGet 0 TODO [key1, key2] 1 [key1 \<mapsto> Some 7] [key2] None,
         CallFn TODO [key2] Map.empty (Some (New ''db down''))])
   \<and> CallFn TODO [key2] Map.empty (Some (New ''db down''))
       \<in> set [CallMGet 0 TODO [key1, key2] 1 [key1 \<mapsto> Some (7::nat)] [key2] None,
              CallFn TODO [key2] Map.empty (Some (New ''db down''))]
   \<and> fst (snd (MGet_tiers TODO 1 (enumerate 0 [tier_with key1 7]) [key1, key2] Map.empty [] 0 []))
       = [key1 \<mapsto> Some 7]"
proof -
  have run: "Cache_MGet (Build (NewCacheBuilder 1 [tier_with key1 7])) TODO [key1, key2] (Some source_down) 0
     = ((None, Some (Wrap (New ''db down'') ''can not get from source'')), None, 0,
        [CallMGet 0 TODO [key1, key2] 1 [key1 \<mapsto> Some 7] [key2] None,
         CallFn TODO [key2] Map.empty (Some (New ''db down''))])"
    by (simp add: Cache_MGet_def example_defs)
  have ev: "CallFn TODO [key2] Map.empty (Some (New ''db down''))
       \<in> set [CallMGet 0 TODO [key1, key2] 1 [key1 \<mapsto> Some (7::nat)] [key2] None,
              CallFn TODO [key2] Map.empty (Some (New ''db down''))]"
    by simp
  have resolved: "fst (snd (MGet_tiers TODO 1 (enumerate 0 [tier_with key1 7]) [key1, key2] Map.empty [] 0 []))
       = [key1 \<mapsto> Some 7]"
    by (simp add: example_defs)
  from MGet_source_error_fails_call[OF run ev] run ev resolved
  show ?thesis by simp
qed

text \<open>
  Three tiers: the first is absent and accepts the write, the second is absent and
  refuses it, the third wins.  The value and the nil error are returned, the
  state shows the one accepted write, the trace the refused one.  Then one absent
  tier and the origin: the origin's value is written into the tier.
\<close>

theorem Get_writes_back_witness:
  "Get_tiers TODO key1 1 (enumerate 0 [tier_empty, tier_readonly, tier_with key1 7]) [] 0 []
     = (Some 7, [(0, tier_empty), (1, tier_readonly)], 0,
        [CallGet 0 TODO key1 1 None None, CallGet 1 TODO key1 1 None None,
         CallGet 2 TODO key1 1 (Some 7) None])
   \<and> Cache_Get (Build (NewCacheBuilder 1 [tier_empty, tier_readonly, tier_with key1 7])) TODO key1 None 0
     = ((Some 7, None), 1,
        [CallGet 0 TODO key1 1 None None, CallGet 1 TODO key1 1 None None,
         CallGet 2 TODO key1 1 (Some 7) None,
         CallMSet 0 TODO [''k1'' \<mapsto> Some 7] (5 * Minute) None,
         CallMSet 1 TODO [''k1'' \<mapsto> Some 7] (5 * Minute) (Some (New ''read only'')),
         Log (New ''read only'')])
   \<and> foldl (\<lambda>acc i. write_step ([tier_empty, tier_readonly, tier_with key1 7] ! i) TODO
                        [''k1'' \<mapsto> Some 7] (5 * Minute) acc) ([], 0) [0, 1]
     = ([None, Some (New ''read only'')], 1)
   \<and> Get_tiers TODO key1 1 (enumerate 0 [tier_empty]) [] 0 []
     = (None, [(0, tier_empty)], 0, [CallGet 0 TODO key1 1 None None])
   \<and> source_single TODO key1 0 = ((Some 11, None), 0)
   \<and> Cache_Get (Build (NewCacheBuilder 1 [tier_empty])) TODO key1 (Some source_single) 0
     = ((Some 11, None), 1,
        [CallGet 0 TODO key1 1 None None, CallSingleFn TODO key1 (Some 11) None,
         CallMSet 0 TODO [''k1'' \<mapsto> Some 11] (5 * Minute) None])
   \<and> foldl (\<lambda>acc i. write_step ([tier_empty] ! i) TODO [''k1'' \<mapsto> Some 11] (5 * Minute) acc) ([], 0) [0]
     = ([None], 1)"
proof -
  let ?A = "Build (NewCacheBuilder 1 [tier_empty, tier_readonly, tier_with key1 7])"
  let ?B = "Build (NewCacheBuilder 1 [tier_empty])"
  have a1: "Get_tiers TODO key1 (modelVersion (builder ?A)) (enumerate 0 (providers (builder ?A))) [] 0 []
     = (Some 7, [(0, tier_empty), (1, tier_readonly)], 0,
        [CallGet 0 TODO key1 1 None None, CallGet 1 TODO key1 1 None None,
         CallGet 2 TODO key1 1 (Some 7) None])"
    by (simp add: example_defs)
  have a2: "(Some (7::nat) \<noteq> None \<and> Some 7 = Some (7::nat) \<and> (0::nat) = 0)
            \<or> (Some (7::nat) = None \<and> None = Some source_single \<and> source_single TODO key1 0 = ((Some 7, None), 0))"
    by simp
  have arun: "Cache_Get ?A TODO key1 None 0
     = ((Some 7, None), 1,
        [CallGet 0 TODO key1 1 None None, CallGet 1 TODO key1 1 None None,
         CallGet 2 TODO key1 1 (Some 7) None,
         CallMSet 0 TODO [''k1'' \<mapsto> Some 7] (5 * Minute) None,
         CallMSet 1 TODO [''k1'' \<mapsto> Some 7] (5 * Minute) (Some (New ''read only'')),
         Log (New ''read only'')])"
    by (simp add: Cache_Get_def example_defs)
  have afold: "foldl (\<lambda>acc i. write_step ([tier_empty, tier_readonly, tier_with key1 7] ! i) TODO
                        [''k1'' \<mapsto> Some 7] (5 * Minute) acc) ([], 0) [0, 1]
     = ([None, Some (New ''read only'')], 1)"
    by (simp add: write_step_def tier_empty_def tier_readonly_def)
  have b1: "Get_tiers TODO key1 (modelVersion (builder ?B)) (enumerate 0 (providers (builder ?B))) [] 0 []
     = (None, [(0, tier_empty)], 0, [CallGet 0 TODO key1 1 None None])"
    by (simp add: example_defs)
  have src: "source_single TODO key1 0 = ((Some 11, None), 0)"
    by (simp add: source_single_def key1_def)
  have b2: "((None :: nat option) \<noteq> None \<and> Some 11 = (None :: nat option) \<and> (0::nat) = 0)
            \<or> ((None :: nat option) = None \<and> Some source_single = Some source_single
                \<and> source_single TODO key1 0 = ((Some 11, None), 0))"
    using src by simp
  have brun: "Cache_Get ?B TODO key1 (Some source_single) 0
     = ((Some 11, None), 1,
        [CallGet 0 TODO key1 1 None None, CallSingleFn TODO key1 (Some 11) None,
         CallMSet 0 TODO [''k1'' \<mapsto> Some 11] (5 * Minute) None])"
    by (simp add: Cache_Get_def example_defs)
  have bfold: "foldl (\<lambda>acc i. write_step ([tier_empty] ! i) TODO [''k1'' \<mapsto> Some 11] (5 * Minute) acc) ([], 0) [0]
     = ([None], 1)"
    by (simp add: write_step_def tier_empty_def)
  note A = Get_writes_back[where f = source_single and c = ?A, OF a1 a2]
  note B = Get_writes_back[where f = source_single and c = ?B, OF b1 b2]
  from A B a1 arun afold b1 src brun bfold
  show ?thesis by (simp add: Build_def NewCacheBuilder_def)
qed

text \<open>
  Two tiers and an origin that returns nil.  The first tier holds nothing in the
  state of the call and would hold a value after one write; the second refuses
  writes.  Both are written the nil value, and the state shows the accepted write.
\<close>

theorem Get_nil_from_source_written_back_witness:
  "Get_tiers TODO key1 1 (enumerate 0 [tier_late, tier_readonly]) [] 0 []
     = (None, [(0, tier_late), (1, tier_readonly)], 0,
        [CallGet 0 TODO key1 1 None None, CallGet 1 TODO key1 1 None None])
   \<and> tiers_absent [CallGet 0 TODO key1 1 (None :: nat option) None, CallGet 1 TODO key1 1 None None] = [0, 1]
   \<and> source_nil TODO key1 0 = ((None, None), 0)
   \<and> fst (Provider_Get tier_late TODO key1 1 1) = (Some 1, None)
   \<and> Cache_Get (Build (NewCacheBuilder 1 [tier_late, tier_readonly])) TODO key1 (Some source_nil) 0
     = ((None, None), 1,
        [CallGet 0 TODO key1 1 None None, CallGet 1 TODO key1 1 None None,
         CallSingleFn TODO key1 None None,
         CallMSet 0 TODO [''k1'' \<mapsto> None] (5 * Minute) None,
         CallMSet 1 TODO [''k1'' \<mapsto> None] (5 * Minute) (Some (New ''read only'')),
         Log (New ''read only'')])
   \<and> foldl (\<lambda>acc i. write_step ([tier_late, tier_readonly] ! i) TODO [''k1'' \<mapsto> None] (5 * Minute) acc)
        ([], 0) [0, 1]
     = ([None, Some (New ''read only'')], 1)"
proof -
  let ?C = "Build (NewCacheBuilder 1 [tier_late, tier_readonly])"
  have h1: "Get_tiers TODO key1 (modelVersion (builder ?C)) (enumerate 0 (providers (builder ?C))) [] 0 []
     = (None, [(0, tier_late), (1, tier_readonly)], 0,
        [CallGet 0 TODO key1 1 None None, CallGet 1 TODO key1 1 None None])"
    by (simp add: example_defs tier_late_def)
  have h2: "tiers_absent [CallGet 0 TODO key1 1 (None :: nat option) None, CallGet 1 TODO key1 1 None None]
            = [0..<length (providers (builder ?C))]"
    by (simp add: tiers_absent_def Build_def NewCacheBuilder_def upt_rec)
  have h3: "source_nil TODO key1 0 = ((None, None), 0)"
    by (simp add: source_nil_def)
  have late: "fst (Provider_Get tier_late TODO key1 1 1) = (Some 1, None)"
    by (simp add: tier_late_def)
  have run: "Cache_Get ?C TODO key1 (Some source_nil) 0
     = ((None, None), 1,
        [CallGet 0 TODO key1 1 None None, CallGet 1 TODO key1 1 None None,
         CallSingleFn TODO key1 None None,
         CallMSet 0 TODO [''k1'' \<mapsto> None] (5 * Minute) None,
         CallMSet 1 TODO [''k1'' \<mapsto> None] (5 * Minute) (Some (New ''read only'')),
         Log (New ''read only'')])"
    by (simp add: Cache_Get_def example_defs tier_late_def)
  have fold: "foldl (\<lambda>acc i. write_step ([tier_late, tier_readonly] ! i) TODO [''k1'' \<mapsto> None] (5 * Minute) acc)
        ([], 0) [0, 1]
     = ([None, Some (New ''read only'')], 1)"
    by (simp add: write_step_def tier_late_def tier_readonly_def)
  have abs: "tiers_absent [CallGet 0 TODO key1 1 (None :: nat option) None, CallGet 1 TODO key1 1 None None] = [0, 1]"
    by (simp add: tiers_absent_def)
  note T = Get_nil_from_source_written_back[where f = source_nil and c = ?C, OF h1 h2 h3]
  from T h1 abs h3 late run fold
  show ?thesis by (simp add: Build_def NewCacheBuilder_def)
qed

theorem first_tier_hit_stops_witness:
  "Provider_Get (tier_with key1 7) TODO key1 1 0 = ((Some 7, None), 0)
   \<and> Cache_Get (Build (NewCacheBuilder 1 [tier_with key1 7, tier_empty])) TODO key1 (Some source_single) 0
     = ((Some 7, None), 0, [CallGet 0 TODO key1 1 (Some 7) None])
   \<and> Provider_MGet (tier_with key1 7) TODO [key1] 1 0 = (([key1 \<mapsto> Some 7], [], None), 0)
   \<and> Cache_MGet (Build (NewCacheBuilder 1 [tier_with key1 7, tier_empty])) TODO [key1] (Some source_all) 0
     = ((Some [key1 \<mapsto> Some 7], None), None, 0, [CallMGet 0 TODO [key1] 1 [key1 \<mapsto> Some 7] [] None])"
proof -
  have h1: "Provider_Get (tier_with key1 7) TODO key1 1 0 = ((Some 7, None), 0)"
    by (simp add: example_defs)
  have h2: "Provider_MGet (tier_with key1 7) TODO [key1] 1 0 = (([key1 \<mapsto> Some 7], [], None), 0)"
    by (simp add: example_defs)
  from first_tier_hit_stops
         [where c = "Build (NewCacheBuilder 1 [tier_with key1 7, tier_empty])" and p = "tier_with key1 7"
            and rest = "[tier_empty]" and ctx = TODO and key = key1 and s = 0 and x = 7 and ?s1.0 = 0
            and keys = "[key1]" and found = "[key1 \<mapsto> Some 7]"
            and fn = "Some source_single" and gn = "Some source_all"]
    h1 h2
  show ?thesis by (simp add: Build_def NewCacheBuilder_def)
qed


text \<open>
  Two tiers: the first holds \<open>key1\<close>, the second nothing; the origin knows \<open>key2\<close>.
  Both tiers missed \<open>key2\<close> and both are backfilled with it: run from state 0, the
  backfill leaves state 2.  With one tier that refuses writes, the backfill's
  write is made and its error logged.  With the tiers in the other order and only
  \<open>key1\<close> asked, the first tier misses, the second resolves, the origin is not
  called and nothing is backfilled.
\<close>

theorem MGet_backfill_after_source_witness:
  "Cache_MGet (Build (NewCacheBuilder 1 [tier_with key1 7, tier_empty])) TODO [key1, key2] (Some source_all) 0
     = ((Some [key1 \<mapsto> Some 7, key2 \<mapsto> Some 12], None),
        Some \<lparr>bf_missingIn = [(0, tier_with key1 7, [key2]), (1, tier_empty, [key2])],
              bf_valuesFromSource = [key2 \<mapsto> Some 12], bf_ttl = 5 * Minute\<rparr>,
        0,
        [CallMGet 0 TODO [key1, key2] 1 [key1 \<mapsto> Some 7] [key2] None,
         CallMGet 1 TODO [key2] 1 Map.empty [key2] None,
         CallFn TODO [key2] [key2 \<mapsto> Some 12] None])
   \<and> Backfill_run
         \<lparr>bf_missingIn = [(0, tier_with key1 7, [key2]), (1, tier_empty, [key2])],
          bf_valuesFromSource = [key2 \<mapsto> Some 12], bf_ttl = 5 * Minute\<rparr> 0
     = (2, [CallMSet 0 Background [''k2'' \<mapsto> Some 12] (5 * Minute) None,
            CallMSet 1 Background [''k2'' \<mapsto> Some 12] (5 * Minute) None])
   \<and> foldl (\<lambda>acc y. write_step ([tier_with key1 7, tier_empty] ! fst y) Background
                        (Backfill_toSet (snd y) [key2 \<mapsto> Some 12] Map.empty) (5 * Minute) acc)
        ([], 0) [(0, [key2]), (1, [key2])]
     = ([None, None], 2)
   \<and> MSet_calls (snd (Backfill_run
         \<lparr>bf_missingIn = [(0, tier_with key1 7, [key2]), (1, tier_empty, [key2])],
          bf_valuesFromSource = [key2 \<mapsto> Some 12], bf_ttl = 5 * Minute\<rparr> 0))
     = [(0, Background, [''k2'' \<mapsto> Some 12], 5 * Minute), (1, Background, [''k2'' \<mapsto> Some 12], 5 * Minute)]
   \<and> dom (Backfill_toSet [key2] [key2 \<mapsto> Some (12::nat)] Map.empty) = {''k2''}
   \<and> Cache_MGet (Build (NewCacheBuilder 1 [tier_readonly])) TODO [key2] (Some source_all) 0
     = ((Some [key2 \<mapsto> Some 12], None),
        Some \<lparr>bf_missingIn = [(0, tier_readonly, [key2])],
              bf_valuesFromSource = [key2 \<mapsto> Some 12], bf_ttl = 5 * Minute\<rparr>,
        0,
        [CallMGet 0 TODO [key2] 1 Map.empty [key2] None,
         CallFn TODO [key2] [key2 \<mapsto> Some 12] None])
   \<and> Backfill_run
         \<lparr>bf_missingIn = [(0, tier_readonly, [key2])],
          bf_valuesFromSource = [key2 \<mapsto> Some 12], bf_ttl = 5 * Minute\<rparr> 0
     = (0, [CallMSet 0 Background [''k2'' \<mapsto> Some 12] (5 * Minute) (Some (New ''read only'')),
            Log (New ''read only'')])
   \<and> Cache_MGet (Build (NewCacheBuilder 1 [tier_empty, tier_with key1 7])) TODO [key1] (Some source_all) 0
     = ((Some [key1 \<mapsto> Some 7], None), None, 0,
        [CallMGet 0 TODO [key1] 1 Map.empty [key1] None,
         CallMGet 1 TODO [key1] 1 [key1 \<mapsto> Some 7] [] None])"
proof -
  have run: "Cache_MGet (Build (NewCacheBuilder 1 [tier_with key1 7, tier_empty])) TODO [key1, key2] (Some source_all) 0
     = ((Some [key1 \<mapsto> Some 7, key2 \<mapsto> Some 12], None),
        Some \<lparr>bf_missingIn = [(0, tier_with key1 7, [key2]), (1, tier_empty, [key2])],
              bf_valuesFromSource = [key2 \<mapsto> Some 12], bf_ttl = 5 * Minute\<rparr>,
        0,
        [CallMGet 0 TODO [key1, key2] 1 [key1 \<mapsto> Some 7] [key2] None,
         CallMGet 1 TODO [key2] 1 Map.empty [key2] None,
         CallFn TODO [key2] [key2 \<mapsto> Some 12] None])"
    by (simp add: Cache_MGet_def example_defs)
  have refused: "Cache_MGet (Build (NewCacheBuilder 1 [tier_readonly])) TODO [key2] (Some source_all) 0
     = ((Some [key2 \<mapsto> Some 12], None),
        Some \<lparr>bf_missingIn = [(0, tier_readonly, [key2])],
              bf_valuesFromSource = [key2 \<mapsto> Some 12], bf_ttl = 5 * Minute\<rparr>,
        0,
        [CallMGet 0 TODO [key2] 1 Map.empty [key2] None,
         CallFn TODO [key2] [key2 \<mapsto> Some 12] None])"
    by (simp add: Cache_MGet_def example_defs)
  have other: "Cache_MGet (Build (NewCacheBuilder 1 [tier_empty, tier_with key1 7])) TODO [key1] (Some source_all) 0
     = ((Some [key1 \<mapsto> Some 7], None), None, 0,
        [CallMGet 0 TODO [key1] 1 Map.empty [key1] None,
         CallMGet 1 TODO [key1] 1 [key1 \<mapsto> Some 7] [] None])"
    by (simp add: Cache_MGet_def example_defs)
  have ts: "dom (Backfill_toSet [key2] [key2 \<mapsto> Some (12::nat)] Map.empty) = {''k2''}"
    by (simp add: key2_def)
  have bfrun: "Backfill_run
         \<lparr>bf_missingIn = [(0, tier_with key1 7, [key2]), (1, tier_empty, [key2])],
          bf_valuesFromSource = [key2 \<mapsto> Some 12], bf_ttl = 5 * Minute\<rparr> 0
     = (2, [CallMSet 0 Background [''k2'' \<mapsto> Some 12] (5 * Minute) None,
            CallMSet 1 Background [''k2'' \<mapsto> Some 12] (5 * Minute) None])"
    by (simp add: Backfill_run_def example_defs)
  have bfrefused: "Backfill_run
         \<lparr>bf_missingIn = [(0, tier_readonly, [key2])],
          bf_valuesFromSource = [key2 \<mapsto> Some 12], bf_ttl = 5 * Minute\<rparr> 0
     = (0, [CallMSet 0 Background [''k2'' \<mapsto> Some 12] (5 * Minute) (Some (New ''read only'')),
            Log (New ''read only'')])"
    by (simp add: Backfill_run_def example_defs)
  have fold: "foldl (\<lambda>acc y. write_step ([tier_with key1 7, tier_empty] ! fst y) Background
                        (Backfill_toSet (snd y) [key2 \<mapsto> Some 12] Map.empty) (5 * Minute) acc)
        ([], 0) [(0, [key2]), (1, [key2])]
     = ([None, None], 2)"
    by (simp add: write_step_def tier_with_def tier_empty_def)
  have bf: "MSet_calls (snd (Backfill_run
         \<lparr>bf_missingIn = [(0, tier_with key1 7, [key2]), (1, tier_empty, [key2])],
          bf_valuesFromSource = [key2 \<mapsto> Some 12], bf_ttl = 5 * Minute\<rparr> 0))
     = [(0, Background, [''k2'' \<mapsto> Some 12], 5 * Minute), (1, Background, [''k2'' \<mapsto> Some 12], 5 * Minute)]"
    by (simp add: Backfill_run_def MSet_calls_def example_defs)
  from MGet_backfill_after_source[OF run, where ks = "[key2]" and m = "[key2 \<mapsto> Some 12]"]
    run refused other ts bfrun bfrefused fold bf
  show ?thesis by simp
qed

section \<open>Lemmas on the distributed-store tier\<close>

lemma chunk_count_last:
  fixes m n :: nat
  assumes "0 < m" "m \<le> n"
  shows "(m + n - 1) div n = 1"
proof -
  define k where "k = m - 1"
  have kn: "k < n" and n0: "n \<noteq> 0" and e: "m + n - 1 = k + n"
    using assms by (simp_all add: k_def)
  have "(k + n) div n = k div n + 1" using n0 by (rule div_add_self2)
  moreover have "k div n = 0" using kn by simp
  ultimately show ?thesis unfolding e by simp
qed

lemma chunk_count_step:
  fixes m n :: nat
  assumes "0 < n" "n < m"
  shows "Suc ((m - n + n - 1) div n) = (m + n - 1) div n"
proof -
  define j where "j = m - 1"
  have l: "m - n + n - 1 = j" and r: "m + n - 1 = j + n" and n0: "n \<noteq> 0"
    using assms by (simp_all add: j_def)
  have "(j + n) div n = j div n + 1" using n0 by (rule div_add_self2)
  then show ?thesis unfolding l r by simp
qed

lemma chunkBy_total:
  assumes cs: "0 < cs"
  shows "\<exists>new. chunkBy items cs chunks = Some (Inr (chunks @ new)) \<and> concat new = items \<and> new \<noteq> []
      \<and> (\<forall>c\<in>set (butlast new). length c = nat cs) \<and> length (last new) \<le> nat cs
      \<and> (items \<noteq> [] \<longrightarrow> last new \<noteq> [])
      \<and> length new = (if items = [] then 1 else (length items + nat cs - 1) div nat cs)"
proof (induction items arbitrary: chunks rule: measure_induct_rule[where f = length])
  case (less items)
  let ?n = "nat cs"
  have n: "0 < ?n" using cs by simp
  show ?case
  proof (cases "cs < int (length items)")
    case False
    then have run: "chunkBy items cs chunks = Some (Inr (chunks @ [items]))"
      by (subst chunkBy.simps) simp
    from False have le: "length items \<le> ?n" by simp
    have cnt: "items \<noteq> [] \<Longrightarrow> (length items + ?n - 1) div ?n = 1"
      using le by (intro chunk_count_last) simp_all
    show ?thesis
      using run le cnt by (intro exI[of _ "[items]"]) simp
  next
    case True
    then have lt: "?n < length items" using cs by simp
    let ?rest = "drop ?n items"
    have "length ?rest < length items" using lt n by simp
    from less.IH[OF this, of "chunks @ [take ?n items]"] obtain new where new:
      "chunkBy ?rest cs (chunks @ [take ?n items]) = Some (Inr ((chunks @ [take ?n items]) @ new))"
      "concat new = ?rest" "new \<noteq> []" "\<forall>c\<in>set (butlast new). length c = ?n"
      "length (last new) \<le> ?n" "?rest \<noteq> [] \<longrightarrow> last new \<noteq> []"
      "length new = (if ?rest = [] then 1 else (length ?rest + ?n - 1) div ?n)"
      by blast
    have run: "chunkBy items cs chunks = Some (Inr (chunks @ (take ?n items # new)))"
      using True cs new(1) by (subst chunkBy.simps) simp
    have rest_ne: "?rest \<noteq> []" using lt by simp
    have cnt: "Suc (length new) = (length items + ?n - 1) div ?n"
      using new(7) rest_ne chunk_count_step[OF n lt] by simp
    have items_ne: "items \<noteq> []" using lt by auto
    show ?thesis
      using run new(2-6) cnt items_ne lt rest_ne
      by (intro exI[of _ "take ?n items # new"]) (simp add: min_def)
  qed
qed



lemma restrict_insert_None: "f k = None \<Longrightarrow> f |` insert k S = f |` S"
  by (auto simp: restrict_map_def fun_eq_iff)

lemma add_restrict_insert_Some: "f k = Some v \<Longrightarrow> m(k \<mapsto> v) ++ (f |` S) = m ++ (f |` insert k S)"
  by (auto simp: map_add_def restrict_map_def fun_eq_iff split: option.splits)

lemma restrict_add_union: "(f |` A) ++ (f |` B) = f |` (A \<union> B)"
  by (auto simp: map_add_def restrict_map_def fun_eq_iff split: option.splits)

lemma add_restrict_add_union: "m ++ (f |` A) ++ (f |` B) = m ++ (f |` (A \<union> B))"
  by (auto simp: map_add_def restrict_map_def fun_eq_iff split: option.splits)

lemma MGet_slots_keys:
  "MGet_slots en rmv (pre @ ks) (enumerate (length pre) (map (\<lambda>k. reply cl (Key k)) ks)) missing results
   = (missing @ filter (slot_missing en cl) ks, results ++ (slot_found en rmv cl |` set ks))"
proof (induction ks arbitrary: pre missing results)
  case Nil
  show ?case by simp
next
  case (Cons k ks)
  have at: "(pre @ k # ks) ! length pre = k" by simp
  have IH: "\<And>missing results.
      MGet_slots en rmv (pre @ k # ks) (enumerate (Suc (length pre)) (map (\<lambda>k. reply cl (Key k)) ks)) missing results
      = (missing @ filter (slot_missing en cl) ks, results ++ (slot_found en rmv cl |` set ks))"
    using Cons.IH[of "pre @ [k]"] by simp
  show ?case
  proof (cases "reply cl (Key k) = INil")
    case True
    then have "slot_missing en cl k" "slot_found en rmv cl k = None"
      by (simp_all add: slot_missing_def slot_found_def)
    then show ?thesis using True IH at by (simp add: restrict_insert_None)
  next
    case notnil: False
    show ?thesis
    proof (cases "Unmarshal en (toUnpack (reply cl (Key k)))")
      case (Inl e)
      then have "slot_missing en cl k" "slot_found en rmv cl k = None"
        using notnil by (simp_all add: slot_missing_def slot_found_def)
      then show ?thesis using notnil Inl IH at by (simp add: restrict_insert_None)
    next
      case (Inr item)
      show ?thesis
      proof (cases "GetCacheModelVersion en item = rmv")
        case True
        then have "\<not> slot_missing en cl k" "slot_found en rmv cl k = Some (Some item)"
          using notnil Inr by (simp_all add: slot_missing_def slot_found_def)
        then show ?thesis using notnil Inr True IH at by (simp add: add_restrict_insert_Some)
      next
        case False
        then have "\<not> slot_missing en cl k" "slot_found en rmv cl k = None"
          using notnil Inr by (simp_all add: slot_missing_def slot_found_def)
        then show ?thesis using notnil Inr False IH at by (simp add: restrict_insert_None)
      qed
    qed
  qed
qed

lemma MGet_chunk_answer:
  "MGet_chunk r en ctx rmv ch =
     (case failure (client r) ctx (map Key ch) of
        Some e \<Rightarrow> \<lparr>Error = Some (WithStack e), Missing = [], Results = Map.empty\<rparr>
      | None \<Rightarrow> \<lparr>Error = None, Missing = filter (slot_missing en (client r)) ch,
                  Results = slot_found en rmv (client r) |` set ch\<rparr>)"
proof (cases "failure (client r) ctx (map Key ch)")
  case None
  have "MGet_slots en rmv ch (enumerate 0 (map (\<lambda>k. reply (client r) (Key k)) ch)) [] Map.empty
        = (filter (slot_missing en (client r)) ch, slot_found en rmv (client r) |` set ch)"
    using MGet_slots_keys[of en rmv "[]" ch "client r" "[]" Map.empty] by simp
  then show ?thesis using None by (simp add: MGet_chunk_def Cmdable_MGet_def comp_def)
next
  case (Some e)
  then show ?thesis by (simp add: MGet_chunk_def Cmdable_MGet_def)
qed

lemma MGet_collect_answered:
  "MGet_collect (map (MGet_chunk r en ctx rmv) chunks) missing results
   = (missing @ filter (slot_missing en (client r)) (concat (answered r ctx chunks)),
      results ++ (slot_found en rmv (client r) |` set (concat (answered r ctx chunks))))"
proof (induction chunks arbitrary: missing results)
  case Nil
  show ?case by (simp add: answered_def)
next
  case (Cons ch chunks)
  show ?case
  proof (cases "failure (client r) ctx (map Key ch)")
    case None
    then show ?thesis
      using Cons.IH by (simp add: MGet_chunk_answer answered_def add_restrict_add_union)
  next
    case (Some e)
    then show ?thesis using Cons.IH by (simp add: MGet_chunk_answer answered_def)
  qed
qed

lemma RedisCache_MGet_answer:
  assumes "chunkBy keys (chunkSize r) [] = Some (Inr chunks)"
  shows "RedisCache_MGet r en ctx keys rmv
       = Some (Inr ((slot_found en rmv (client r) |` set (concat (answered r ctx chunks)),
                     filter (slot_missing en (client r)) (concat (answered r ctx chunks)), None),
                    map (map Key) chunks))"
  using assms by (simp add: RedisCache_MGet_def MGet_collect_answered)


lemma slot_stale_dropped:
  "slot_stale en rmv cl k \<Longrightarrow> slot_found en rmv cl k = None \<and> \<not> slot_missing en cl k"
  by (auto simp: slot_stale_def slot_found_def slot_missing_def split: sum.splits)

lemma slot_found_not_missing:
  "slot_found en rmv cl k \<noteq> None \<Longrightarrow> \<not> slot_missing en cl k"
  by (auto simp: slot_found_def slot_missing_def split: sum.splits if_splits)

lemma RedisCache_MGet_nil_error:
  "RedisCache_MGet r en ctx keys rmv = Some (Inr ((found, missing, err), calls)) \<Longrightarrow> err = None"
  by (auto simp: RedisCache_MGet_def split: option.splits sum.splits prod.splits)

text \<open>
  C6.  Whenever the distributed-store MGet returns, the error it returns is nil.
  With a positive chunk size it returns, and what it returns is built from the
  chunks whose batch call did not fail alone: found is the version-matched slots
  of their keys, missing their nil and undecodable slots in order.  So a key whose
  stored value decodes with another version is in neither found nor missing, the
  response of a chunk whose call failed carries no key, and a key that only
  failed chunks hold is in neither found nor missing.
\<close>

theorem RedisCache_MGet_silent_drops:
  "(\<forall>found missing err calls.
      RedisCache_MGet r en ctx keys rmv = Some (Inr ((found, missing, err), calls)) \<longrightarrow> err = None)
   \<and> (0 < chunkSize r \<longrightarrow>
       (\<exists>chunks found missing.
           chunkBy keys (chunkSize r) [] = Some (Inr chunks) \<and> concat chunks = keys
         \<and> RedisCache_MGet r en ctx keys rmv = Some (Inr ((found, missing, None), map (map Key) chunks))
         \<and> found = slot_found en rmv (client r) |` set (concat (answered r ctx chunks))
         \<and> missing = filter (slot_missing en (client r)) (concat (answered r ctx chunks))
         \<and> (\<forall>k. slot_stale en rmv (client r) k \<longrightarrow> k \<notin> dom found \<and> k \<notin> set missing)
         \<and> (\<forall>ch\<in>set chunks. failure (client r) ctx (map Key ch) \<noteq> None \<longrightarrow>
               Missing (MGet_chunk r en ctx rmv ch) = [] \<and> Results (MGet_chunk r en ctx rmv ch) = Map.empty)
         \<and> (\<forall>k. k \<notin> set (concat (answered r ctx chunks)) \<longrightarrow> k \<notin> dom found \<and> k \<notin> set missing)))"
proof (intro conjI impI)
  show "\<forall>found missing err calls.
      RedisCache_MGet r en ctx keys rmv = Some (Inr ((found, missing, err), calls)) \<longrightarrow> err = None"
    using RedisCache_MGet_nil_error by blast
next
  assume pos: "0 < chunkSize r"
  from chunkBy_total[OF pos, of keys "[]"] obtain chunks where
    ch: "chunkBy keys (chunkSize r) [] = Some (Inr chunks)" "concat chunks = keys" by auto
  let ?ok = "concat (answered r ctx chunks)"
  let ?found = "slot_found en rmv (client r) |` set ?ok"
  let ?missing = "filter (slot_missing en (client r)) ?ok"
  have run: "RedisCache_MGet r en ctx keys rmv = Some (Inr ((?found, ?missing, None), map (map Key) chunks))"
    by (rule RedisCache_MGet_answer[OF ch(1)])
  have stale: "\<forall>k. slot_stale en rmv (client r) k \<longrightarrow> k \<notin> dom ?found \<and> k \<notin> set ?missing"
    using slot_stale_dropped[of en rmv "client r"] by (auto simp: restrict_map_def split: if_splits)
  have failed: "\<forall>ch\<in>set chunks. failure (client r) ctx (map Key ch) \<noteq> None \<longrightarrow>
               Missing (MGet_chunk r en ctx rmv ch) = [] \<and> Results (MGet_chunk r en ctx rmv ch) = Map.empty"
    by (auto simp: MGet_chunk_answer)
  have other: "\<forall>k. k \<notin> set ?ok \<longrightarrow> k \<notin> dom ?found \<and> k \<notin> set ?missing"
    by (auto simp: restrict_map_def split: if_splits)
  from ch run stale failed other
  show "\<exists>chunks found missing.
           chunkBy keys (chunkSize r) [] = Some (Inr chunks) \<and> concat chunks = keys
         \<and> RedisCache_MGet r en ctx keys rmv = Some (Inr ((found, missing, None), map (map Key) chunks))
         \<and> found = slot_found en rmv (client r) |` set (concat (answered r ctx chunks))
         \<and> missing = filter (slot_missing en (client r)) (concat (answered r ctx chunks))
         \<and> (\<forall>k. slot_stale en rmv (client r) k \<longrightarrow> k \<notin> dom found \<and> k \<notin> set missing)
         \<and> (\<forall>ch\<in>set chunks. failure (client r) ctx (map Key ch) \<noteq> None \<longrightarrow>
               Missing (MGet_chunk r en ctx rmv ch) = [] \<and> Results (MGet_chunk r en ctx rmv ch) = Map.empty)
         \<and> (\<forall>k. k \<notin> set (concat (answered r ctx chunks)) \<longrightarrow> k \<notin> dom found \<and> k \<notin> set missing)"
    by blast
qed



section \<open>The earlier revision against the current one\<close>

lemma chunkBy_one_chunk:
  "int (length items) \<le> cs \<Longrightarrow> chunkBy items cs [] = Some (Inr [items])"
  by (subst chunkBy.simps) simp

lemma RedisCache_MGet_part000_one_chunk:
  assumes "int (length keys) \<le> chunkSize r"
  shows "RedisCache_MGet_part000 r en ctx keys rmv = RedisCache_MGet r en ctx keys rmv"
proof -
  have a: "chunkBy keys (chunkSize r) [] = Some (Inr [keys])"
    using assms by (rule chunkBy_one_chunk)
  have b: "chunkBy (map Key keys) (chunkSize r) [] = Some (Inr [map Key keys])"
    using assms by (intro chunkBy_one_chunk) simp
  have c: "MGet_chunk_part000 r en ctx rmv keys (map Key keys) = MGet_chunk r en ctx rmv keys"
    by (simp add: MGet_chunk_part000_def MGet_chunk_def)
  show ?thesis
    by (simp add: RedisCache_MGet_part000_def RedisCache_MGet_def a b c)
qed

lemma chunkBy_101:
  "length items = 101 \<Longrightarrow> chunkBy items 100 [] = Some (Inr [take 100 items, drop 100 items])"
  by (subst chunkBy.simps, simp, subst chunkBy.simps, simp)

lemma drop_100_of_101: "length ks = 101 \<Longrightarrow> drop 100 ks = [ks ! 100]"
proof -
  assume l: "length ks = 101"
  then have "ks ! 100 # drop (Suc 100) ks = drop 100 ks" by (intro Cons_nth_drop_Suc) simp
  with l show ?thesis by simp
qed

lemma MGet_slots_all_nil:
  "\<forall>v\<in>set vs. v = INil \<Longrightarrow> n + length vs \<le> length keys \<Longrightarrow>
   MGet_slots en rmv keys (enumerate n vs) missing results
   = (missing @ take (length vs) (drop n keys), results)"
proof (induction vs arbitrary: n missing)
  case Nil
  then show ?case by simp
next
  case (Cons v vs)
  from Cons.prems have v: "v = INil" and n: "n < length keys" by simp_all
  from Cons.prems have "Suc n + length vs \<le> length keys" "\<forall>v\<in>set vs. v = INil" by simp_all
  from Cons.IH[OF this(2) this(1)]
  have IH: "\<And>missing. MGet_slots en rmv keys (enumerate (Suc n) vs) missing results
            = (missing @ take (length vs) (drop (Suc n) keys), results)" .
  have "take (length (v # vs)) (drop n keys) = keys ! n # take (length vs) (drop (Suc n) keys)"
    using Cons_nth_drop_Suc[OF n, symmetric] by simp
  then show ?case using v IH by simp
qed

lemma RedisCache_MGet_part000_101:
  assumes len: "length keys = 101" and cs: "chunkSize r = 100"
    and ok: "\<forall>ks. failure (client r) ctx ks = None"
    and nil: "\<forall>k\<in>set (take 100 keys). reply (client r) (Key k) = INil"
    and hit: "slot_found en rmv (client r) (keys ! 100) = Some (Some item)"
  shows "RedisCache_MGet_part000 r en ctx keys rmv
       = Some (Inr (([keys ! 0 \<mapsto> Some item], take 100 keys, None),
                    [map Key (take 100 keys), [Key (keys ! 100)]]))"
proof -
  have chunks: "chunkBy (map Key keys) (chunkSize r) []
                = Some (Inr [map Key (take 100 keys), [Key (keys ! 100)]])"
    using chunkBy_101[of "map Key keys"] len drop_100_of_101[OF len]
    by (simp add: cs take_map drop_map)
  have first: "MGet_chunk_part000 r en ctx rmv keys (map Key (take 100 keys))
               = \<lparr>Error = None, Missing = take 100 keys, Results = Map.empty\<rparr>"
  proof -
    have "MGet_slots en rmv keys (enumerate 0 (map (reply (client r)) (map Key (take 100 keys)))) [] Map.empty
          = ([] @ take (length (map (reply (client r)) (map Key (take 100 keys)))) (drop 0 keys), Map.empty)"
      using nil len by (intro MGet_slots_all_nil) auto
    then show ?thesis using ok len by (simp add: MGet_chunk_part000_def Cmdable_MGet_def)
  qed
  from hit have h: "reply (client r) (Key (keys ! 100)) \<noteq> INil"
    "Unmarshal en (toUnpack (reply (client r) (Key (keys ! 100)))) = Inr item"
    "GetCacheModelVersion en item = rmv"
    by (auto simp: slot_found_def split: if_splits sum.splits)
  have second: "MGet_chunk_part000 r en ctx rmv keys [Key (keys ! 100)]
               = \<lparr>Error = None, Missing = [], Results = [keys ! 0 \<mapsto> Some item]\<rparr>"
    using ok h by (simp add: MGet_chunk_part000_def Cmdable_MGet_def)
  have ne: "take 100 keys \<noteq> []" using len by auto
  show ?thesis
    using ne by (simp add: RedisCache_MGet_part000_def chunks first second)
qed

lemma RedisCache_MGet_101:
  assumes len: "length keys = 101" and cs: "chunkSize r = 100"
    and ok: "\<forall>ks. failure (client r) ctx ks = None"
    and nil: "\<forall>k\<in>set (take 100 keys). reply (client r) (Key k) = INil"
    and hit: "slot_found en rmv (client r) (keys ! 100) = Some (Some item)"
  shows "RedisCache_MGet r en ctx keys rmv
       = Some (Inr (([keys ! 100 \<mapsto> Some item], take 100 keys, None),
                    [map Key (take 100 keys), [Key (keys ! 100)]]))"
proof -
  have split: "keys = take 100 keys @ [keys ! 100]"
    using drop_100_of_101[OF len] append_take_drop_id[of 100 keys] by simp
  have chunks: "chunkBy keys (chunkSize r) [] = Some (Inr [take 100 keys, [keys ! 100]])"
    using chunkBy_101[OF len] drop_100_of_101[OF len] by (simp add: cs)
  have ans: "concat (answered r ctx [take 100 keys, [keys ! 100]]) = keys"
    using ok split by (simp add: answered_def)
  have nf: "\<forall>k\<in>set (take 100 keys). slot_found en rmv (client r) k = None \<and> slot_missing en (client r) k"
    using nil by (simp add: slot_found_def slot_missing_def)
  have nm: "\<not> slot_missing en (client r) (keys ! 100)"
    using hit slot_found_not_missing[of en rmv "client r" "keys ! 100"] by simp
  have found: "slot_found en rmv (client r) |` set keys = [keys ! 100 \<mapsto> Some item]"
  proof
    fix k
    show "(slot_found en rmv (client r) |` set keys) k = [keys ! 100 \<mapsto> Some item] k"
    proof (cases "k = keys ! 100")
      case True
      then have "k \<in> set keys" using len by simp
      then show ?thesis using True hit by simp
    next
      case False
      have "k \<in> set keys \<Longrightarrow> slot_found en rmv (client r) k = None"
      proof -
        assume "k \<in> set keys"
        then have "k \<in> set (take 100 keys @ [keys ! 100])" using split by simp
        with False have "k \<in> set (take 100 keys)" by simp
        with nf show ?thesis by simp
      qed
      then show ?thesis using False by (auto simp: restrict_map_def)
    qed
  qed
  have "filter (slot_missing en (client r)) (take 100 keys @ [keys ! 100]) = take 100 keys"
    using nf nm by simp
  then have missing: "filter (slot_missing en (client r)) keys = take 100 keys"
    using split by simp
  show ?thesis
    using RedisCache_MGet_answer[OF chunks, of en ctx rmv] by (simp add: ans found missing)
qed

lemma keys_upto_facts:
  "length (keys_upto n) = n" "i < n \<Longrightarrow> keys_upto n ! i = key_n i"
  "m \<le> n \<Longrightarrow> take m (keys_upto n) = keys_upto m"
  by (simp_all add: keys_upto_def take_map)

lemma store_last_facts:
  "\<forall>ks. failure (client (NewRedisCache store_last)) ctx ks = None"
  "\<forall>k\<in>set (keys_upto 100). reply (client (NewRedisCache store_last)) (Key k) = INil"
  "slot_found entity_len 1 (client (NewRedisCache store_last)) (key_n 100) = Some (Some 1)"
  by (auto simp: NewRedisCache_def store_last_def keys_upto_def key_n_def slot_found_def
        entity_len_def toUnpack_def)

text \<open>
  C9 at 101 keys with the chunk size 100 of a new tier, the store holding a value
  for the last key alone.  The current revision finds key 100; the earlier one
  files the value of key 100 under key 0, which it also reports missing.
\<close>

theorem RedisCache_MGet_part000_differs:
  "RedisCache_MGet (NewRedisCache store_last) entity_len TODO (keys_upto 101) 1
     = Some (Inr (([key_n 100 \<mapsto> Some 1], keys_upto 100, None),
                  [map Key (keys_upto 100), [Key (key_n 100)]]))
   \<and> RedisCache_MGet_part000 (NewRedisCache store_last) entity_len TODO (keys_upto 101) 1
     = Some (Inr (([key_n 0 \<mapsto> Some 1], keys_upto 100, None),
                  [map Key (keys_upto 100), [Key (key_n 100)]]))
   \<and> key_n 0 \<noteq> key_n 100 \<and> key_n 0 \<in> set (keys_upto 100)"
proof -
  have len: "length (keys_upto 101) = 101" by (simp add: keys_upto_facts)
  have cs: "chunkSize (NewRedisCache store_last) = 100" by (simp add: NewRedisCache_def)
  have nil: "\<forall>k\<in>set (take 100 (keys_upto 101)). reply (client (NewRedisCache store_last)) (Key k) = INil"
    using store_last_facts(2) by (simp add: keys_upto_facts)
  have hit: "slot_found entity_len 1 (client (NewRedisCache store_last)) (keys_upto 101 ! 100) = Some (Some 1)"
    using store_last_facts(3) by (simp add: keys_upto_facts)
  have a: "RedisCache_MGet (NewRedisCache store_last) entity_len TODO (keys_upto 101) 1
     = Some (Inr (([key_n 100 \<mapsto> Some 1], keys_upto 100, None),
                  [map Key (keys_upto 100), [Key (key_n 100)]]))"
    using RedisCache_MGet_101[OF len cs store_last_facts(1) nil hit]
    by (simp add: keys_upto_facts)
  have b: "RedisCache_MGet_part000 (NewRedisCache store_last) entity_len TODO (keys_upto 101) 1
     = Some (Inr (([key_n 0 \<mapsto> Some 1], keys_upto 100, None),
                  [map Key (keys_upto 100), [Key (key_n 100)]]))"
    using RedisCache_MGet_part000_101[OF len cs store_last_facts(1) nil hit]
    by (simp add: keys_upto_facts)
  have c: "key_n 0 \<noteq> key_n 100" by (simp add: key_n_def)
  have d: "key_n 0 \<in> set (keys_upto 100)" by (simp add: keys_upto_def)
  from a b c d show ?thesis by blast
qed


section \<open>The distributed-store claims at concrete inputs\<close>

lemma keys_upto_10:
  "keys_upto 10 = [key_n 0, key_n 1, key_n 2, key_n 3, key_n 4, key_n 5, key_n 6, key_n 7, key_n 8, key_n 9]"
  by (simp add: keys_upto_def upt_rec eval_nat_numeral)

lemma chunkBy_10_by_4:
  "chunkBy (keys_upto 10) 4 []
   = Some (Inr [[key_n 0, key_n 1, key_n 2, key_n 3], [key_n 4, key_n 5, key_n 6, key_n 7], [key_n 8, key_n 9]])"
  by (simp add: keys_upto_10 chunkBy.simps)

text \<open>
  Ten keys in chunks of four over the mixed store: key 1 is not held, key 2 is
  stale, key 3 does not decode, and the call for the second chunk fails.
\<close>

theorem RedisCache_MGet_silent_drops_witness:
  "0 < chunkSize \<lparr>client = store_mixed, chunkSize = 4\<rparr>
   \<and> slot_stale entity_len 1 store_mixed (key_n 2)
   \<and> failure store_mixed TODO (map Key [key_n 4, key_n 5, key_n 6, key_n 7]) = Some (New ''timeout'')
   \<and> RedisCache_MGet \<lparr>client = store_mixed, chunkSize = 4\<rparr> entity_len TODO (keys_upto 10) 1
      = Some (Inr (([key_n 0 \<mapsto> Some 1, key_n 8 \<mapsto> Some 1, key_n 9 \<mapsto> Some 1], [key_n 1, key_n 3], None),
                   [map Key [key_n 0, key_n 1, key_n 2, key_n 3], map Key [key_n 4, key_n 5, key_n 6, key_n 7],
                    map Key [key_n 8, key_n 9]]))"
proof -
  have run: "RedisCache_MGet \<lparr>client = store_mixed, chunkSize = 4\<rparr> entity_len TODO (keys_upto 10) 1
      = Some (Inr (([key_n 0 \<mapsto> Some 1, key_n 8 \<mapsto> Some 1, key_n 9 \<mapsto> Some 1], [key_n 1, key_n 3], None),
                   [map Key [key_n 0, key_n 1, key_n 2, key_n 3], map Key [key_n 4, key_n 5, key_n 6, key_n 7],
                    map Key [key_n 8, key_n 9]]))"
    apply (simp add: RedisCache_MGet_def chunkBy_10_by_4)
    apply (simp add: MGet_chunk_def Cmdable_MGet_def store_mixed_def entity_len_def key_n_def toUnpack_def
        eval_nat_numeral)
    done
  have stale: "slot_stale entity_len 1 store_mixed (key_n 2)"
    by (simp add: slot_stale_def store_mixed_def entity_len_def key_n_def toUnpack_def)
  have failed: "failure store_mixed TODO (map Key [key_n 4, key_n 5, key_n 6, key_n 7]) = Some (New ''timeout'')"
    by (simp add: store_mixed_def key_n_def)
  have pos: "0 < chunkSize \<lparr>client = store_mixed, chunkSize = 4\<rparr>" by simp
  from RedisCache_MGet_silent_drops
         [where r = "\<lparr>client = store_mixed, chunkSize = 4\<rparr>" and en = entity_len and ctx = TODO
            and keys = "keys_upto 10" and rmv = 1]
    pos stale failed run
  show ?thesis by blast
qed



end
